theory Spec2Isabelle
  imports Main "HOL-Library.AList"
begin

section \<open>JavaScript values and objects\<close>

text \<open>
  Values of type \<open>any\<close> (payloads, rendered templates, commit data) are JSON-like values.
  An object is a list of its own properties in insertion order.
\<close>

datatype json =
    JUndefined
  | JNull
  | JBool bool
  | JNum int
  | JStr string
  | JArr "json list"
  | JObj "(string \<times> json) list"

text \<open>Errors thrown by the code or by a collaborator; every one carries a message.\<close>

datatype error = Error string | TypeError string

fun message :: "error \<Rightarrow> string" where
  "message (Error m) = m"
| "message (TypeError m) = m"

text \<open>Template literals print an undefined value as the text \<open>undefined\<close>; the same
  conversion is applied to a property key.\<close>

fun js_string :: "string option \<Rightarrow> string" where
  "js_string None = ''undefined''"
| "js_string (Some s) = s"

text \<open>\<open>a || b\<close> on an optional string: undefined and the empty string are falsy.\<close>

fun or_string :: "string option \<Rightarrow> string \<Rightarrow> string" where
  "or_string None d = d"
| "or_string (Some s) d = (if s = [] then d else s)"

fun or_bool :: "bool option \<Rightarrow> bool \<Rightarrow> bool" where
  "or_bool None d = d"
| "or_bool (Some b) d = (b \<or> d)"

text \<open>\<open>a || []\<close> on an optional array: every array, also the empty one, is truthy.\<close>

fun or_list :: "'a list option \<Rightarrow> 'a list \<Rightarrow> 'a list" where
  "or_list None d = d"
| "or_list (Some xs) d = xs"

subsection \<open>Strings\<close>

definition startsWith :: "string \<Rightarrow> string \<Rightarrow> bool" where
  "startsWith s p = (take (length p) s = p)"

text \<open>\<open>s.replace(pat, "")\<close> with a string pattern removes the first occurrence of
  \<open>pat\<close> in \<open>s\<close>, wherever it stands.\<close>

fun replace_first :: "string \<Rightarrow> string \<Rightarrow> string" where
  "replace_first pat [] = []"
| "replace_first pat (c # cs) =
     (if startsWith (c # cs) pat then drop (length pat) (c # cs)
      else c # replace_first pat cs)"

text \<open>Whether \<open>pat\<close> occurs in \<open>s\<close>: when it does not, \<open>replace\<close> changes nothing.\<close>

fun contains :: "string \<Rightarrow> string \<Rightarrow> bool" where
  "contains [] pat = (pat = [])"
| "contains (c # cs) pat = (startsWith (c # cs) pat \<or> contains cs pat)"

text \<open>\<open>s.split(sep)\<close> for a one-character separator: the result is never empty, and two
  adjacent separators give an empty piece.\<close>

fun split :: "char \<Rightarrow> string \<Rightarrow> string list" where
  "split sep [] = [[]]"
| "split sep (c # cs) =
     (if c = sep then [] # split sep cs
      else (case split sep cs of
              [] \<Rightarrow> [[c]]
            | t # ts \<Rightarrow> (c # t) # ts))"

text \<open>\<open>xs[i]\<close>: reading past the end of an array gives undefined.\<close>

definition index :: "'a list \<Rightarrow> nat \<Rightarrow> 'a option" where
  "index xs i = (if i < length xs then Some (xs ! i) else None)"

subsection \<open>Property order\<close>

text \<open>
  A \<open>for (k in obj)\<close> loop visits the keys that are array indices (canonical decimal
  numerals below \<open>2^32 - 1\<close>) first, in ascending numeric order, then the other keys in
  the order in which they were first inserted. Assigning to an existing key keeps its
  place, which is what \<open>AList.update\<close> does on the insertion-ordered list. The keys
  that an object inherits from its prototype follow its own ones; the dictionary of the
  teardown handler, below, is the one object here whose prototype can change.
\<close>

definition is_digit :: "char \<Rightarrow> bool" where
  "is_digit c = ((48::nat) \<le> of_char c \<and> of_char c \<le> (57::nat))"

definition digits_value :: "string \<Rightarrow> nat" where
  "digits_value s = foldl (\<lambda>n c. 10 * n + (of_char c - 48)) (0::nat) s"

definition array_index :: "string \<Rightarrow> nat option" where
  "array_index s =
     (if s \<noteq> [] \<and> list_all is_digit s \<and> (length s = 1 \<or> hd s \<noteq> CHR ''0'')
         \<and> digits_value s < 2 ^ 32 - 1
      then Some (digits_value s) else None)"

definition for_in :: "(string \<times> 'v) list \<Rightarrow> string list" where
  "for_in obj =
     (let keys = map fst obj in
      sort_key (\<lambda>k. the (array_index k)) (filter (\<lambda>k. array_index k \<noteq> None) keys)
      @ filter (\<lambda>k. array_index k = None) keys)"

function show_nat :: "nat \<Rightarrow> string" where
  "show_nat n =
     (if n < 10 then [char_of (48 + n)]
      else show_nat (n div 10) @ [char_of (48 + n mod 10)])"
  by pat_completeness auto
termination
  by (relation "measure (\<lambda>n. n)") auto

text \<open>The own enumerable properties that an object spread \<open>{...v}\<close> copies: those of an
  object, the indexed elements of an array and the indexed characters of a string;
  undefined, null, booleans and numbers contribute nothing.\<close>

fun own_properties :: "json \<Rightarrow> (string \<times> json) list" where
  "own_properties (JObj kvs) = kvs"
| "own_properties (JArr xs) = map (\<lambda>i. (show_nat i, xs ! i)) [0..<length xs]"
| "own_properties (JStr s) = map (\<lambda>i. (show_nat i, JStr [s ! i])) [0..<length s]"
| "own_properties v = []"

definition spread :: "(string \<times> json) list \<Rightarrow> json \<Rightarrow> (string \<times> json) list" where
  "spread obj v = fold (\<lambda>(k, x) acc. AList.update k x acc) (own_properties v) obj"

text \<open>Reading a property of a value that is neither null nor undefined: an object gives
  what it holds under the name, or undefined. The names read below (\<open>payload\<close>,
  \<open>environment\<close>, \<open>description\<close>, \<open>transient_environment\<close>, \<open>production_environment\<close>)
  are no property of a string, an array, a number or a boolean, which give undefined
  too.\<close>

fun member :: "json \<Rightarrow> string \<Rightarrow> json" where
  "member (JObj kvs) k = (case map_of kvs k of None \<Rightarrow> JUndefined | Some v \<Rightarrow> v)"
| "member v k = JUndefined"

text \<open>What \<open>||\<close> and \<open>!\<close> take for true: everything but undefined, null, false, zero and
  the empty string.\<close>

fun truthy :: "json \<Rightarrow> bool" where
  "truthy JUndefined = False"
| "truthy JNull = False"
| "truthy (JBool b) = b"
| "truthy (JNum n) = (n \<noteq> 0)"
| "truthy (JStr s) = (s \<noteq> [])"
| "truthy v = True"

section \<open>Data model\<close>

text \<open>The \<open>Deployment\<close> interface: one sub-deployment of a target, as configured.
  A field the code guards with \<open>||\<close> may be absent.\<close>

record deployment =
  task :: "string option"
  payload :: json
  environment :: "string option"
  description :: "string option"
  auto_merge :: "bool option"

text \<open>The \<open>Target\<close> interface.\<close>

record target =
  name :: string
  auto_deploy_on :: "string option"
  required_contexts :: "string list option"
  transient_environment :: "bool option"
  production_environment :: "bool option"
  deployments :: "deployment list option"

type_synonym targets = "(string \<times> target) list"

text \<open>A deployment as the provider lists it (\<open>ReposListDeploymentsResponseItem\<close>,
  \<open>ReposGetDeploymentResponse\<close>): the fields that the code reads, with their declared
  types, and in \<open>d_properties\<close> all the enumerable properties of the response object (these
  fields among them) as values, in the order of the object.\<close>

record deployment_item =
  d_id :: int
  d_environment :: string
  d_description :: "string option"
  d_payload :: json
  d_transient_environment :: bool
  d_production_environment :: bool
  d_properties :: "(string \<times> json) list"

text \<open>The fields of \<open>PullsGetResponse\<close> that the code reads.\<close>

record pull =
  pr_number :: int
  head_ref :: string
  head_sha :: string

text \<open>The parameters handed to the template renderer.\<close>

record params =
  p_ref :: string
  p_target :: "string option"
  p_owner :: string
  p_repo :: string
  p_short_sha :: string
  p_commit :: json
  p_pr :: "int option"
  p_pull_request :: "pull option"

text \<open>The body of a \<open>createDeployment\<close> request. \<open>q_headers\<close> is the accept header that
  \<open>withPreview\<close> sets. The two flags are values as the environment ones are: the teardown
  handler passes on what it reads, which may be undefined.\<close>

record request =
  q_owner :: string
  q_repo :: string
  q_ref :: string
  q_task :: string
  q_transient_environment :: json
  q_production_environment :: json
  q_environment :: json
  q_auto_merge :: "bool option"
  q_required_contexts :: "string list"
  q_description :: json
  q_payload :: json
  q_headers :: "string option"

definition previewAnt :: string where
  "previewAnt = ''application/vnd.github.ant-man-preview+json''"

definition previewFlash :: string where
  "previewFlash = ''application/vnd.github.flash-preview+json''"

definition preview_accept :: string where
  "preview_accept = previewAnt @ '','' @ previewFlash"

section \<open>The provider, the log and the event context\<close>

text \<open>Every request that leaves the process, with its arguments.\<close>

datatype call =
    GetCommit string string string
  | GetContents string string string string
  | CreateDeployment request
  | GetRef string string string
  | ListDeployments string string "string option" "string option" "string option"
  | CreateDeploymentStatus string string int string "string option"
  | PullsGet string string int
  | CreateComment string string int string
  | CanWrite string string string
  | ContextConfig string

text \<open>The trace records each request with whether it succeeded. A collaborator answers
  from everything requested so far, so it may answer the same request differently over
  time.\<close>

type_synonym history = "(call \<times> bool) list"

datatype level = Info | Err

record world =
  trace :: history
  logs :: "(level \<times> string) list"

text \<open>
  The collaborators, none of which is part of the code under study: the provider's REST
  interface, \<open>canWrite\<close> of the auth module, the framework's \<open>context.config\<close>, the
  template renderer, and \<open>parse\<close>, which stands for decoding the fetched file, loading
  the YAML (an empty document gives no entries) and validating it against the schema
  (the first violation is thrown).
\<close>

record github =
  getCommit :: "history \<Rightarrow> string \<Rightarrow> string \<Rightarrow> string \<Rightarrow> error + json"
  getContents :: "history \<Rightarrow> string \<Rightarrow> string \<Rightarrow> string \<Rightarrow> string \<Rightarrow> error + string"
  parse :: "string \<Rightarrow> error + targets"
  createDeployment :: "history \<Rightarrow> request \<Rightarrow> error + deployment_item"
  getRef :: "history \<Rightarrow> string \<Rightarrow> string \<Rightarrow> string \<Rightarrow> error + string"
  listDeployments ::
    "history \<Rightarrow> string \<Rightarrow> string \<Rightarrow> string option \<Rightarrow> string option \<Rightarrow> error + deployment_item list"
  createDeploymentStatus :: "history \<Rightarrow> string \<Rightarrow> string \<Rightarrow> int \<Rightarrow> string \<Rightarrow> error + unit"
  pulls_get :: "history \<Rightarrow> string \<Rightarrow> string \<Rightarrow> int \<Rightarrow> error + pull"
  createComment :: "history \<Rightarrow> string \<Rightarrow> string \<Rightarrow> int \<Rightarrow> string \<Rightarrow> error + unit"
  canWrite :: "history \<Rightarrow> string \<Rightarrow> string \<Rightarrow> string \<Rightarrow> error + bool"
  context_config :: "history \<Rightarrow> string \<Rightarrow> error + targets option"
  render :: "json \<Rightarrow> params \<Rightarrow> json"

text \<open>The webhook events the application subscribes to, with the payload fields read.\<close>

datatype event =
    Push string
  | Status string
  | Check_run string
  | Issue_comment_created int string string
  | Pull_request_closed string string
  | Other

record Context =
  owner :: string
  repo :: string
  event :: event

section \<open>Effects\<close>

text \<open>An asynchronous function is a function of the world that returns the value it
  resolves to, or the error it rejects with, and the world it leaves. \<open>await\<close> is
  sequencing: the code never starts two requests at once.\<close>

type_synonym 'a io = "world \<Rightarrow> (error + 'a) \<times> world"

definition return :: "'a \<Rightarrow> 'a io" where
  "return x w = (Inr x, w)"

definition throw :: "error \<Rightarrow> 'a io" where
  "throw e w = (Inl e, w)"

definition await :: "'a io \<Rightarrow> ('a \<Rightarrow> 'b io) \<Rightarrow> 'b io" where
  "await m k w = (case m w of (Inl e, w') \<Rightarrow> (Inl e, w') | (Inr x, w') \<Rightarrow> k x w')"

definition try_catch :: "'a io \<Rightarrow> (error \<Rightarrow> 'a io) \<Rightarrow> 'a io" where
  "try_catch m h w = (case m w of (Inl e, w') \<Rightarrow> h e w' | (Inr x, w') \<Rightarrow> (Inr x, w'))"

definition log :: "level \<Rightarrow> string \<Rightarrow> unit io" where
  "log l msg w = (Inr (), w\<lparr>logs := logs w @ [(l, msg)]\<rparr>)"

definition request :: "call \<Rightarrow> (history \<Rightarrow> error + 'a) \<Rightarrow> 'a io" where
  "request c answer w =
     (let r = answer (trace w) in (r, w\<lparr>trace := trace w @ [(c, \<not> isl r)]\<rparr>))"

section \<open>The configuration and the request body\<close>

definition config_path :: string where
  "config_path = ''.github/deploy.yml''"

text \<open>\<open>config\<close>: fetch the file at the ref, parse and validate it, then give every
  entry its key as its name and an empty list where it has no deployments.\<close>

definition config :: "github \<Rightarrow> string \<Rightarrow> string \<Rightarrow> string \<Rightarrow> targets io" where
  "config gh own rep ref =
     await (request (GetContents own rep ref config_path)
              (\<lambda>h. getContents gh h own rep ref config_path))
       (\<lambda>content.
          case parse gh content of
            Inl err \<Rightarrow> throw err
          | Inr conf \<Rightarrow>
              return (map (\<lambda>(key, t).
                        (key, t\<lparr>name := key,
                                deployments := Some (or_list (deployments t) [])\<rparr>)) conf))"

text \<open>What \<open>getDeployBody\<close> returns: the fields of a request that come from the
  target and the sub-deployment. \<open>withPreview\<close> adds the accept header.\<close>

record deploy_body =
  b_task :: string
  b_transient_environment :: bool
  b_production_environment :: bool
  b_environment :: json
  b_auto_merge :: bool
  b_required_contexts :: "string list"
  b_description :: json
  b_payload :: json
  b_headers :: string

definition getDeployBody :: "github \<Rightarrow> target \<Rightarrow> deployment \<Rightarrow> params \<Rightarrow> deploy_body" where
  "getDeployBody gh tv d data =
     \<lparr>b_task = or_string (task d) ''deploy'',
      b_transient_environment = or_bool (transient_environment tv) False,
      b_production_environment = or_bool (production_environment tv) False,
      b_environment = render gh (JStr (or_string (environment d) ''production'')) data,
      b_auto_merge = or_bool (auto_merge d) False,
      b_required_contexts = or_list (required_contexts tv) [],
      b_description =
        render gh (case description d of None \<Rightarrow> JUndefined | Some s \<Rightarrow> JStr s) data,
      b_payload = JObj (spread [(''target'', JStr (name tv))] (render gh (payload d) data)),
      b_headers = preview_accept\<rparr>"

text \<open>\<open>{owner, repo, ref, ...getDeployBody(targetVal, deployment, params)}\<close>\<close>

definition deploy_request :: "string \<Rightarrow> string \<Rightarrow> string \<Rightarrow> deploy_body \<Rightarrow> request" where
  "deploy_request own rep ref b =
     \<lparr>q_owner = own,
      q_repo = rep,
      q_ref = ref,
      q_task = b_task b,
      q_transient_environment = JBool (b_transient_environment b),
      q_production_environment = JBool (b_production_environment b),
      q_environment = b_environment b,
      q_auto_merge = Some (b_auto_merge b),
      q_required_contexts = b_required_contexts b,
      q_description = b_description b,
      q_payload = b_payload b,
      q_headers = Some (b_headers b)\<rparr>"

section \<open>deployCommit\<close>

text \<open>One pass of the body of the loop over \<open>targetVal.deployments\<close>: the request,
  and the rethrow of its failure.\<close>

definition deploy_one ::
  "github \<Rightarrow> string \<Rightarrow> string \<Rightarrow> string \<Rightarrow> target \<Rightarrow> params \<Rightarrow> deployment
     \<Rightarrow> deployment_item io"
where
  "deploy_one gh own rep ref tv data d =
     (let body = deploy_request own rep ref (getDeployBody gh tv d data) in
      try_catch
        (await (log Info ''deploy: deploying'') (\<lambda>_.
         await (request (CreateDeployment body) (\<lambda>h. createDeployment gh h body)) (\<lambda>deploy.
         await (log Info ''deploy: successful'') (\<lambda>_.
         return deploy))))
        (\<lambda>err. await (log Err ''deploy: failed'') (\<lambda>_. throw err)))"

fun deploy_loop ::
  "github \<Rightarrow> string \<Rightarrow> string \<Rightarrow> string \<Rightarrow> target \<Rightarrow> params \<Rightarrow> deployment list
     \<Rightarrow> deployment_item list \<Rightarrow> deployment_item list io"
where
  "deploy_loop gh own rep ref tv data [] deployed = return deployed"
| "deploy_loop gh own rep ref tv data (d # ds) deployed =
     await (deploy_one gh own rep ref tv data d)
       (\<lambda>deploy. deploy_loop gh own rep ref tv data ds (deployed @ [deploy]))"

definition no_target :: "string option \<Rightarrow> error" where
  "no_target t = Error (''Deployment target '' @ [CHR 0x22] @ js_string t @ [CHR 0x22]
                        @ '' does not exist'')"

definition no_deployments :: "string option \<Rightarrow> error" where
  "no_deployments t = Error (''Deployment target '' @ [CHR 0x22] @ js_string t @ [CHR 0x22]
                             @ '' has no deployments'')"

definition deployCommit ::
  "github \<Rightarrow> string \<Rightarrow> string \<Rightarrow> string option \<Rightarrow> string \<Rightarrow> string \<Rightarrow> pull option
     \<Rightarrow> deployment_item list io"
where
  "deployCommit gh own rep tgt ref sha pr =
     await (request (GetCommit own rep sha) (\<lambda>h. getCommit gh h own rep sha)) (\<lambda>commit.
     let data = \<lparr>p_ref = ref, p_target = tgt, p_owner = own, p_repo = rep,
                 p_short_sha = take 7 sha, p_commit = commit,
                 p_pr = map_option pr_number pr, p_pull_request = pr\<rparr> in
     await (config gh own rep ref) (\<lambda>conf.
     case map_of conf (js_string tgt) of
       None \<Rightarrow>
         await (log Info ''deploy: failed - no target'') (\<lambda>_. throw (no_target tgt))
     | Some targetVal \<Rightarrow>
         (case deployments targetVal of
            None \<Rightarrow> throw (TypeError ''Cannot read property length of undefined'')
          | Some ds \<Rightarrow>
              if length ds = 0 then
                await (log Info ''deploy: failed - no deployments'')
                  (\<lambda>_. throw (no_deployments tgt))
              else deploy_loop gh own rep ref targetVal data ds [])))"

section \<open>The command handler\<close>

definition failure_comment :: "error \<Rightarrow> string" where
  "failure_comment err =
     '':rotating_light: Failed to trigger deployment. :rotating_light:'' @ [CHR 0x0A]
     @ message err"

definition handlePRDeploy :: "github \<Rightarrow> Context \<Rightarrow> string \<Rightarrow> unit io" where
  "handlePRDeploy gh ctx command =
     (case event ctx of
        Issue_comment_created number user body \<Rightarrow>
          await (log Info ''pr deploy: handling command'') (\<lambda>_.
          try_catch
            (let tgt = index (split CHR '' '' command) 1 in
             await (request (PullsGet (owner ctx) (repo ctx) number)
                      (\<lambda>h. pulls_get gh h (owner ctx) (repo ctx) number)) (\<lambda>pr.
             await (request (CanWrite (owner ctx) (repo ctx) user)
                      (\<lambda>h. canWrite gh h (owner ctx) (repo ctx) user)) (\<lambda>write.
             if \<not> write then log Info ''pr deploy: no write priviledges''
             else
               await (deployCommit gh (owner ctx) (repo ctx) tgt (head_ref pr) (head_sha pr)
                        (Some pr))
                 (\<lambda>_. return ()))))
            (\<lambda>err.
               let text = failure_comment err in
               request (CreateComment (owner ctx) (repo ctx) number text)
                 (\<lambda>h. createComment gh h (owner ctx) (repo ctx) number text)))
      | _ \<Rightarrow> throw (TypeError ''Cannot read property of undefined''))"

section \<open>The auto-deploy evaluator\<close>

definition autoDeployTarget :: "github \<Rightarrow> Context \<Rightarrow> string \<Rightarrow> target \<Rightarrow> unit io" where
  "autoDeployTarget gh ctx tgt targetVal =
     (case auto_deploy_on targetVal of
        None \<Rightarrow> return ()
      | Some autoDeploy \<Rightarrow>
          if autoDeploy = [] then return ()
          else
            (let ref = replace_first ''refs/'' autoDeploy in
             await (log Info ''auto deploy: verifying'') (\<lambda>_.
             await (request (GetRef (owner ctx) (repo ctx) ref)
                      (\<lambda>h. getRef gh h (owner ctx) (repo ctx) ref)) (\<lambda>sha.
             await (request (ListDeployments (owner ctx) (repo ctx) (Some sha) None None)
                      (\<lambda>h. listDeployments gh h (owner ctx) (repo ctx) (Some sha) None))
               (\<lambda>deploys.
             case deployments targetVal of
               None \<Rightarrow> throw (TypeError ''Cannot read property map of undefined'')
             | Some ds \<Rightarrow>
                 (let environments = map environment ds in
                  if find (\<lambda>d. Some (d_environment d) \<in> set environments) deploys \<noteq> None
                  then log Info ''auto deploy: already deployed''
                  else
                    await (log Info ''auto deploy: deploying'') (\<lambda>_.
                    try_catch
                      (await (deployCommit gh (owner ctx) (repo ctx) (Some tgt) ref sha None)
                         (\<lambda>_. log Info ''auto deploy: done''))
                      (\<lambda>err. log Err ''auto deploy: failed''))))))))"

fun auto_deploy_loop :: "github \<Rightarrow> Context \<Rightarrow> targets \<Rightarrow> string list \<Rightarrow> unit io" where
  "auto_deploy_loop gh ctx conf [] = return ()"
| "auto_deploy_loop gh ctx conf (key # keys) =
     (case map_of conf key of
        None \<Rightarrow> throw (TypeError ''Cannot read property auto_deploy_on of undefined'')
      | Some deployment \<Rightarrow>
          await (autoDeployTarget gh ctx key deployment)
            (\<lambda>_. auto_deploy_loop gh ctx conf keys))"

definition handleAutoDeploy :: "github \<Rightarrow> Context \<Rightarrow> unit io" where
  "handleAutoDeploy gh ctx =
     await (log Info ''auto deploy: checking deployments'') (\<lambda>_.
     await (request (ContextConfig ''deploy.yml'') (\<lambda>h. context_config gh h ''deploy.yml''))
       (\<lambda>conf.
          case conf of
            None \<Rightarrow> return ()
          | Some c \<Rightarrow> auto_deploy_loop gh ctx c (for_in c)))"

section \<open>The teardown handler\<close>

definition mark_inactive :: "github \<Rightarrow> Context \<Rightarrow> deployment_item \<Rightarrow> unit io" where
  "mark_inactive gh ctx d =
     try_catch
       (await (log Info ''pr close: mark inactive'') (\<lambda>_.
        request (CreateDeploymentStatus (owner ctx) (repo ctx) (d_id d) ''inactive''
                   (Some preview_accept))
          (\<lambda>h. createDeploymentStatus gh h (owner ctx) (repo ctx) (d_id d) ''inactive'')))
       (\<lambda>err. log Err ''pr close: marking inactive failed'')"

text \<open>
  \<open>environments\<close> is a plain object used as a dictionary from environment names to
  deployments. It has its own properties, in insertion order, and a prototype: none
  that matters at first (the properties of \<open>Object.prototype\<close> are not enumerable), and
  a deployment once one has been assigned to the key \<open>__proto__\<close>, because that
  assignment calls the setter of \<open>Object.prototype\<close>, which replaces the prototype and
  adds no property. Only when the object already has a property of that name, of its own
  or by its prototype, is \<open>__proto__\<close> assigned like any other key.
\<close>

record dictionary =
  properties :: "(string \<times> deployment_item) list"
  prototype :: "deployment_item option"

definition empty_object :: dictionary where
  "empty_object = \<lparr>properties = [], prototype = None\<rparr>"

definition assign :: "string \<Rightarrow> deployment_item \<Rightarrow> dictionary \<Rightarrow> dictionary" where
  "assign k d obj =
     (if k = ''__proto__'' \<and> map_of (properties obj) k = None
         \<and> (case prototype obj of None \<Rightarrow> True | Some p \<Rightarrow> map_of (d_properties p) k = None)
      then obj\<lparr>prototype := Some d\<rparr>
      else obj\<lparr>properties := AList.update k d (properties obj)\<rparr>)"

text \<open>\<open>for (env in environments)\<close> visits the own keys and then the enumerable keys of the
  prototype that no own property hides.\<close>

definition keys_in :: "dictionary \<Rightarrow> string list" where
  "keys_in obj =
     for_in (properties obj)
     @ (case prototype obj of
          None \<Rightarrow> []
        | Some p \<Rightarrow> filter (\<lambda>k. map_of (properties obj) k = None) (for_in (d_properties p)))"

text \<open>\<open>environments[env]\<close> for a key that the loop visits: an own property is a recorded
  deployment, an inherited one is the value of a field of the prototype.\<close>

datatype slot = Item deployment_item | Inherited json

definition lookup :: "dictionary \<Rightarrow> string \<Rightarrow> slot option" where
  "lookup obj k =
     (case map_of (properties obj) k of
        Some d \<Rightarrow> Some (Item d)
      | None \<Rightarrow>
          (case prototype obj of
             None \<Rightarrow> None
           | Some p \<Rightarrow> map_option Inherited (map_of (d_properties p) k)))"

fun mark_loop ::
  "github \<Rightarrow> Context \<Rightarrow> deployment_item list \<Rightarrow> dictionary \<Rightarrow> dictionary io"
where
  "mark_loop gh ctx [] environments = return environments"
| "mark_loop gh ctx (d # ds) environments =
     (if \<not> d_transient_environment d then
        await (log Info ''pr close: not transient'') (\<lambda>_. mark_loop gh ctx ds environments)
      else
        await (mark_inactive gh ctx d)
          (\<lambda>_. mark_loop gh ctx ds (assign (d_environment d) d environments)))"

definition remove_body :: "Context \<Rightarrow> string \<Rightarrow> deployment_item \<Rightarrow> request" where
  "remove_body ctx sha d =
     \<lparr>q_owner = owner ctx,
      q_repo = repo ctx,
      q_ref = sha,
      q_task = ''remove'',
      q_transient_environment = JBool (d_transient_environment d),
      q_production_environment = JBool (d_production_environment d),
      q_environment = JStr (d_environment d),
      q_auto_merge = None,
      q_required_contexts = [],
      q_description = JStr (or_string (d_description d) []),
      q_payload = d_payload d,
      q_headers = None\<rparr>"

text \<open>The same request when \<open>deployment\<close> is not a deployment but the value \<open>v\<close> of one of
  its fields: each property read gives what \<open>v\<close> has under that name.\<close>

definition field_body :: "Context \<Rightarrow> string \<Rightarrow> json \<Rightarrow> request" where
  "field_body ctx sha v =
     \<lparr>q_owner = owner ctx,
      q_repo = repo ctx,
      q_ref = sha,
      q_task = ''remove'',
      q_transient_environment = member v ''transient_environment'',
      q_production_environment = member v ''production_environment'',
      q_environment = member v ''environment'',
      q_auto_merge = None,
      q_required_contexts = [],
      q_description =
        (if truthy (member v ''description'') then member v ''description'' else JStr []),
      q_payload = member v ''payload'',
      q_headers = None\<rparr>"

text \<open>One pass of the second loop. Reading \<open>deployment.id\<close> of null or undefined throws in
  the \<open>try\<close> and again in the \<open>catch\<close>, which reads it for its log entry, so that error
  leaves the handler.\<close>

fun remove_deploy :: "github \<Rightarrow> Context \<Rightarrow> string \<Rightarrow> slot \<Rightarrow> unit io" where
  "remove_deploy gh ctx sha (Item d) =
     try_catch
       (await (log Info ''pr close: remove deploy'') (\<lambda>_.
        await (request (CreateDeployment (remove_body ctx sha d))
                 (\<lambda>h. createDeployment gh h (remove_body ctx sha d)))
          (\<lambda>_. return ())))
       (\<lambda>err. log Err ''pr close: failed to undeploy'')"
| "remove_deploy gh ctx sha (Inherited v) =
     (if v = JNull \<or> v = JUndefined then
        throw (TypeError ''Cannot read property id of null'')
      else
        try_catch
          (await (log Info ''pr close: remove deploy'') (\<lambda>_.
           await (request (CreateDeployment (field_body ctx sha v))
                    (\<lambda>h. createDeployment gh h (field_body ctx sha v)))
             (\<lambda>_. return ())))
          (\<lambda>err. log Err ''pr close: failed to undeploy''))"

fun remove_loop ::
  "github \<Rightarrow> Context \<Rightarrow> string \<Rightarrow> dictionary \<Rightarrow> string list \<Rightarrow> unit io"
where
  "remove_loop gh ctx sha environments [] = return ()"
| "remove_loop gh ctx sha environments (env # envs) =
     (case lookup environments env of
        None \<Rightarrow> throw (TypeError ''Cannot read property id of undefined'')
      | Some deployment \<Rightarrow>
          await (remove_deploy gh ctx sha deployment)
            (\<lambda>_. remove_loop gh ctx sha environments envs))"

definition handlePRClose :: "github \<Rightarrow> Context \<Rightarrow> unit io" where
  "handlePRClose gh ctx =
     (case event ctx of
        Pull_request_closed ref sha \<Rightarrow>
          await (request (ListDeployments (owner ctx) (repo ctx) None (Some ref)
                            (Some preview_accept))
                   (\<lambda>h. listDeployments gh h (owner ctx) (repo ctx) None (Some ref)))
            (\<lambda>data.
          await (log Info ''pr close: listed deploys'') (\<lambda>_.
          await (mark_loop gh ctx (rev data) empty_object) (\<lambda>environments.
          await (log Info ''pr close: remove deploys'') (\<lambda>_.
          remove_loop gh ctx sha environments (keys_in environments)))))
      | _ \<Rightarrow> throw (TypeError ''Cannot read property head of undefined''))"

section \<open>Event dispatch\<close>

definition commands :: "github \<Rightarrow> Context \<Rightarrow> unit io" where
  "commands gh ctx =
     (case event ctx of
        Push _ \<Rightarrow> handleAutoDeploy gh ctx
      | Status _ \<Rightarrow> handleAutoDeploy gh ctx
      | Check_run _ \<Rightarrow> handleAutoDeploy gh ctx
      | Issue_comment_created _ _ body \<Rightarrow>
          if startsWith body ''/deploy'' then handlePRDeploy gh ctx body else return ()
      | Pull_request_closed _ _ \<Rightarrow> handlePRClose gh ctx
      | Other \<Rightarrow> return ())"

section \<open>Observing a run\<close>

text \<open>The requests named in the statements below.\<close>

fun is_create :: "call \<Rightarrow> bool" where
  "is_create (CreateDeployment q) = True"
| "is_create c = False"

fun is_comment :: "call \<Rightarrow> bool" where
  "is_comment (CreateComment own rep n text) = True"
| "is_comment c = False"

fun is_getRef :: "call \<Rightarrow> bool" where
  "is_getRef (GetRef own rep ref) = True"
| "is_getRef c = False"

definition requests :: "world \<Rightarrow> call list" where
  "requests w = map fst (trace w)"

text \<open>The request that the dispatcher sends for a sub-deployment, and the provider's
  answer to it after a given history.\<close>

definition deploy_call ::
  "github \<Rightarrow> string \<Rightarrow> string \<Rightarrow> string \<Rightarrow> target \<Rightarrow> params \<Rightarrow> deployment \<Rightarrow> call" where
  "deploy_call gh own rep ref tv data d =
     CreateDeployment (deploy_request own rep ref (getDeployBody gh tv d data))"

definition deploy_answer ::
  "github \<Rightarrow> string \<Rightarrow> string \<Rightarrow> string \<Rightarrow> target \<Rightarrow> params \<Rightarrow> history \<Rightarrow> deployment
     \<Rightarrow> error + deployment_item" where
  "deploy_answer gh own rep ref tv data h d =
     createDeployment gh h (deploy_request own rep ref (getDeployBody gh tv d data))"

text \<open>The request that the second loop of the teardown builds from what it finds under
  a key.\<close>

fun slot_body :: "Context \<Rightarrow> string \<Rightarrow> slot \<Rightarrow> request" where
  "slot_body ctx sha (Item d) = remove_body ctx sha d"
| "slot_body ctx sha (Inherited v) = field_body ctx sha v"

text \<open>The status update that marks a deployment inactive.\<close>

definition status_call :: "Context \<Rightarrow> deployment_item \<Rightarrow> call" where
  "status_call ctx d =
     CreateDeploymentStatus (owner ctx) (repo ctx) (d_id d) ''inactive'' (Some preview_accept)"

text \<open>The requests of the dispatcher, and the messages it logs.\<close>

fun is_dispatch :: "call \<Rightarrow> bool" where
  "is_dispatch (GetCommit own rep sha) = True"
| "is_dispatch (GetContents own rep ref path) = True"
| "is_dispatch (CreateDeployment q) = True"
| "is_dispatch c = False"

definition deploy_logs :: "(level \<times> string) set" where
  "deploy_logs = {(Info, ''deploy: deploying''), (Info, ''deploy: successful''),
                  (Err, ''deploy: failed''), (Info, ''deploy: failed - no target''),
                  (Info, ''deploy: failed - no deployments'')}"

text \<open>\<open>emits P L m\<close>: a run of \<open>m\<close> only appends to the trace and to the log, the requests
  it adds satisfy \<open>P\<close> and the log entries it adds are in \<open>L\<close>.\<close>

definition emits :: "(call \<Rightarrow> bool) \<Rightarrow> (level \<times> string) set \<Rightarrow> 'a io \<Rightarrow> bool" where
  "emits P L m =
     (\<forall>w. \<exists>cs ls. trace (snd (m w)) = trace w @ cs \<and> (\<forall>c\<in>set cs. P (fst c))
                 \<and> logs (snd (m w)) = logs w @ ls \<and> set ls \<subseteq> L)"

text \<open>A target takes part in auto-deploy when \<open>auto_deploy_on\<close> is a non-empty string;
  the evaluator then resolves the ref it names.\<close>

definition enabled :: "target \<Rightarrow> bool" where
  "enabled t = (case auto_deploy_on t of None \<Rightarrow> False | Some a \<Rightarrow> a \<noteq> [])"

definition resolve_call :: "Context \<Rightarrow> target \<Rightarrow> call" where
  "resolve_call ctx t =
     GetRef (owner ctx) (repo ctx) (replace_first ''refs/'' (the (auto_deploy_on t)))"

text \<open>
  Two notions that the specification uses and the code does not compute, to compare
  the code with. The specification normalizes \<open>autoDeployOn\<close> by stripping a \<open>refs/\<close>
  prefix if present, where the code removes the first occurrence of \<open>refs/\<close>. The
  specification speaks of the tokens of a comment that white space separates (space,
  tab, line feed, vertical tab, form feed and carriage return), where the code splits
  the comment at every single space.
\<close>

definition spec_strip_refs :: "string \<Rightarrow> string" where
  "spec_strip_refs a = (if startsWith a ''refs/'' then drop (length ''refs/'') a else a)"

definition is_space :: "char \<Rightarrow> bool" where
  "is_space c = (c \<in> set [CHR '' '', CHR 0x09, CHR 0x0A, CHR 0x0B, CHR 0x0C, CHR 0x0D])"

fun pieces :: "(char \<Rightarrow> bool) \<Rightarrow> string \<Rightarrow> string list" where
  "pieces sep [] = [[]]"
| "pieces sep (c # cs) =
     (if sep c then [] # pieces sep cs
      else (case pieces sep cs of
              [] \<Rightarrow> [[c]]
            | t # ts \<Rightarrow> (c # t) # ts))"

definition spec_tokens :: "string \<Rightarrow> string list" where
  "spec_tokens s = filter (\<lambda>t. t \<noteq> []) (pieces is_space s)"

section \<open>A repository to run the handlers on\<close>

text \<open>A fresh process, a configuration with one target of two sub-deployments, and a
  provider that accepts every request. The scenarios below change one answer at a time.\<close>

definition w0 :: world where
  "w0 = \<lparr>trace = [], logs = []\<rparr>"

definition staging :: deployment where
  "staging = \<lparr>task = None, payload = JObj [(''app'', JStr ''web'')],
               environment = Some ''staging'', description = None, auto_merge = None\<rparr>"

definition production :: deployment where
  "production = \<lparr>task = None, payload = JUndefined,
                  environment = Some ''production'', description = Some ''live'',
                  auto_merge = None\<rparr>"

definition web :: target where
  "web = \<lparr>name = [], auto_deploy_on = Some ''refs/heads/main'', required_contexts = None,
           transient_environment = None, production_environment = None,
           deployments = Some [staging, production]\<rparr>"

text \<open>A response object with the six fields that the code reads.\<close>

definition item ::
  "int \<Rightarrow> string \<Rightarrow> string option \<Rightarrow> json \<Rightarrow> bool \<Rightarrow> bool \<Rightarrow> deployment_item" where
  "item i env desc load transient live =
     \<lparr>d_id = i, d_environment = env, d_description = desc, d_payload = load,
      d_transient_environment = transient, d_production_environment = live,
      d_properties =
        [(''id'', JNum i), (''payload'', load), (''environment'', JStr env),
         (''description'', case desc of None \<Rightarrow> JNull | Some text \<Rightarrow> JStr text),
         (''transient_environment'', JBool transient),
         (''production_environment'', JBool live)]\<rparr>"

definition created :: "request \<Rightarrow> deployment_item" where
  "created q = item 1 (case q_environment q of JStr s \<Rightarrow> s | _ \<Rightarrow> []) None (q_payload q)
                 (truthy (q_transient_environment q)) (truthy (q_production_environment q))"

definition hub :: github where
  "hub = \<lparr>getCommit = (\<lambda>h own rep sha. Inr JNull),
          getContents = (\<lambda>h own rep ref path. Inr ''targets''),
          parse = (\<lambda>content. Inr [(''web'', web)]),
          createDeployment = (\<lambda>h q. Inr (created q)),
          getRef = (\<lambda>h own rep ref. Inr ''c0ffee11''),
          listDeployments = (\<lambda>h own rep sha ref. Inr []),
          createDeploymentStatus = (\<lambda>h own rep i s. Inr ()),
          pulls_get = (\<lambda>h own rep n.
            Inr \<lparr>pr_number = n, head_ref = ''feature'', head_sha = ''c0ffee11''\<rparr>),
          createComment = (\<lambda>h own rep n text. Inr ()),
          canWrite = (\<lambda>h own rep user. Inr True),
          context_config = (\<lambda>h file. Inr (Some [(''web'', web)])),
          render = (\<lambda>v data. v)\<rparr>"

text \<open>A provider that refuses the production environment.\<close>

definition conflict :: "history \<Rightarrow> request \<Rightarrow> error + deployment_item" where
  "conflict h q = (if q_environment q = JStr ''production'' then Inl (Error ''Conflict'')
                   else Inr (created q))"

text \<open>What the first loop of \<open>handlePRClose\<close> leaves in \<open>environments\<close> after visiting
  \<open>ds\<close>: each transient deployment is assigned to the key of its environment, a later
  one over an earlier one.\<close>

definition recorded :: "deployment_item list \<Rightarrow> dictionary" where
  "recorded ds =
     fold (\<lambda>d. assign (d_environment d) d) (filter d_transient_environment ds) empty_object"

text \<open>A listing is regular when no transient deployment of it has the environment
  \<open>__proto__\<close>.\<close>

definition regular :: "deployment_item list \<Rightarrow> bool" where
  "regular ds = list_all (\<lambda>d. d_transient_environment d \<longrightarrow> d_environment d \<noteq> ''__proto__'') ds"

text \<open>A closed pull request with three deployments on its branch, listed most recent
  first: two previews of the same transient environment and one that is not transient.\<close>

definition closed :: Context where
  "closed = \<lparr>owner = ''acme'', repo = ''shop'',
              event = Pull_request_closed ''feature'' ''c0ffee11''\<rparr>"

definition preview2 :: deployment_item where
  "preview2 = item 12 ''pr-7'' (Some ''second push'')
                (JObj [(''target'', JStr ''web''), (''build'', JNum 2)]) True False"

definition preview1 :: deployment_item where
  "preview1 = item 11 ''pr-7'' None
                (JObj [(''target'', JStr ''web''), (''build'', JNum 1)]) True False"

definition live :: deployment_item where
  "live = item 10 ''production'' None (JObj [(''target'', JStr ''web'')]) False True"

text \<open>A transient deployment of an environment named \<open>__proto__\<close>, as the response object
  of the handler's own test has it: three fields.\<close>

definition polluting :: deployment_item where
  "polluting =
     \<lparr>d_id = 1, d_environment = ''__proto__'', d_description = None, d_payload = JUndefined,
      d_transient_environment = True, d_production_environment = False,
      d_properties = [(''id'', JNum 1), (''environment'', JStr ''__proto__''),
                      (''transient_environment'', JBool True)]\<rparr>"

definition listed_polluting ::
  "history \<Rightarrow> string \<Rightarrow> string \<Rightarrow> string option \<Rightarrow> string option \<Rightarrow> error + deployment_item list"
where
  "listed_polluting h own rep sha ref = Inr [polluting]"

definition listed ::
  "history \<Rightarrow> string \<Rightarrow> string \<Rightarrow> string option \<Rightarrow> string option \<Rightarrow> error + deployment_item list"
where
  "listed h own rep sha ref = Inr [preview2, preview1, live]"

text \<open>A provider that fails every status update.\<close>

definition unavailable :: "history \<Rightarrow> string \<Rightarrow> string \<Rightarrow> int \<Rightarrow> string \<Rightarrow> error + unit" where
  "unavailable h own rep i s = Inl (Error ''Service Unavailable'')"

text \<open>A push to another branch than the one the target deploys from, and a comment on
  pull request 7.\<close>

definition pushed :: Context where
  "pushed = \<lparr>owner = ''acme'', repo = ''shop'', event = Push ''refs/heads/feature''\<rparr>"

definition commented :: "string \<Rightarrow> Context" where
  "commented body = \<lparr>owner = ''acme'', repo = ''shop'',
                      event = Issue_comment_created 7 ''octocat'' body\<rparr>"

text \<open>A second target, which deploys from a branch that does not exist, a
  configuration with both targets, a provider that cannot resolve that branch, and a
  permission check that refuses.\<close>

definition api :: target where
  "api = \<lparr>name = [], auto_deploy_on = Some ''refs/heads/release'', required_contexts = None,
           transient_environment = None, production_environment = None,
           deployments = Some [staging]\<rparr>"

definition two :: "history \<Rightarrow> string \<Rightarrow> error + targets option" where
  "two h file = Inr (Some [(''api'', api), (''web'', web)])"

definition missing :: "history \<Rightarrow> string \<Rightarrow> string \<Rightarrow> string \<Rightarrow> error + string" where
  "missing h own rep ref =
     (if ref = ''heads/release'' then Inl (Error ''Not Found'') else Inr ''c0ffee11'')"

definition denied :: "history \<Rightarrow> string \<Rightarrow> string \<Rightarrow> string \<Rightarrow> error + bool" where
  "denied h own rep user = Inr False"

text \<open>A provider that does not find the pull request of a comment, as for a comment on
  an issue that is not a pull request, and a configuration whose one target is named
  \<open>undefined\<close>.\<close>

definition not_found :: "history \<Rightarrow> string \<Rightarrow> string \<Rightarrow> int \<Rightarrow> error + pull" where
  "not_found h own rep n = Inl (Error ''Not Found'')"

definition undefined_target :: "string \<Rightarrow> error + targets" where
  "undefined_target content = Inr [(''undefined'', web)]"

section \<open>The lock store\<close>

text \<open>
  Modelled from the spec: \<open>InMemStore.lock\<close> of the store module is not among the
  sources, only its test is. The spec gives it as a mapping from a key to a FIFO queue
  of pending continuations and an in-use flag: acquire enqueues and waits, release
  dequeues the next waiter, also when the critical section failed. Execution is
  single-threaded and cooperative, so a run is a sequence of events: a call of
  \<open>lock(key, f)\<close>, or the settling (resolved or rejected) of the critical section that
  runs under a key. A critical section is named by a number. The flag is kept as the
  holder: the lock is in use when it has one.
\<close>

datatype outcome = Resolved | Rejected

datatype lock_event = Call string nat | Settle string outcome

datatype execution = Started string nat | Finished string nat outcome

record lock =
  holder :: "nat option"
  queue :: "nat list"

record lock_store =
  locks :: "string \<Rightarrow> lock"
  executions :: "execution list"

text \<open>Modelled from the spec: a new store holds no lock.\<close>

definition InMemStore :: lock_store where
  "InMemStore = \<lparr>locks = (\<lambda>k. \<lparr>holder = None, queue = []\<rparr>), executions = []\<rparr>"

text \<open>Modelled from the spec: acquire. A free lock is taken and the critical section
  starts; otherwise the call joins the end of the queue of the key.\<close>

definition acquire :: "string \<Rightarrow> nat \<Rightarrow> lock_store \<Rightarrow> lock_store" where
  "acquire k f s =
     (let l = locks s k in
      case holder l of
        None \<Rightarrow> s\<lparr>locks := (locks s)(k := l\<lparr>holder := Some f\<rparr>),
                   executions := executions s @ [Started k f]\<rparr>
      | Some g \<Rightarrow> s\<lparr>locks := (locks s)(k := l\<lparr>queue := queue l @ [f]\<rparr>)\<rparr>)"

text \<open>Modelled from the spec: release, when the critical section of the holder settles,
  whatever the outcome. The first waiter, if any, becomes the holder and starts.\<close>

definition release :: "string \<Rightarrow> outcome \<Rightarrow> lock_store \<Rightarrow> lock_store" where
  "release k out s =
     (let l = locks s k in
      case holder l of
        None \<Rightarrow> s
      | Some f \<Rightarrow>
          (case queue l of
             [] \<Rightarrow> s\<lparr>locks := (locks s)(k := l\<lparr>holder := None\<rparr>),
                      executions := executions s @ [Finished k f out]\<rparr>
           | g # waiting \<Rightarrow>
               s\<lparr>locks := (locks s)(k := \<lparr>holder = Some g, queue = waiting\<rparr>),
                  executions := executions s @ [Finished k f out, Started k g]\<rparr>))"

text \<open>Modelled from the spec: a schedule is any sequence of calls and settlings.\<close>

fun lock_step :: "lock_store \<Rightarrow> lock_event \<Rightarrow> lock_store" where
  "lock_step s (Call k f) = acquire k f s"
| "lock_step s (Settle k out) = release k out s"

definition lock_run :: "lock_event list \<Rightarrow> lock_store" where
  "lock_run es = foldl lock_step InMemStore es"

text \<open>What is observed of a run: the calls made on a key, and the critical sections
  that started and finished under it, each in order.\<close>

fun event_key :: "lock_event \<Rightarrow> string" where
  "event_key (Call k f) = k"
| "event_key (Settle k out) = k"

fun execution_key :: "execution \<Rightarrow> string" where
  "execution_key (Started k f) = k"
| "execution_key (Finished k f out) = k"

fun calls :: "string \<Rightarrow> lock_event list \<Rightarrow> nat list" where
  "calls k [] = []"
| "calls k (Call k' f # es) = (if k' = k then f # calls k es else calls k es)"
| "calls k (Settle k' out # es) = calls k es"

fun started :: "string \<Rightarrow> execution list \<Rightarrow> nat list" where
  "started k [] = []"
| "started k (Started k' f # xs) = (if k' = k then f # started k xs else started k xs)"
| "started k (Finished k' f out # xs) = started k xs"

fun finished :: "string \<Rightarrow> execution list \<Rightarrow> nat list" where
  "finished k [] = []"
| "finished k (Finished k' f out # xs) = (if k' = k then f # finished k xs else finished k xs)"
| "finished k (Started k' f # xs) = finished k xs"

text \<open>No two executions overlap: each one finishes before the next one starts.\<close>

fun serial :: "execution list \<Rightarrow> bool" where
  "serial [] = True"
| "serial [Started k f] = True"
| "serial (Started k f # Finished k' g out # xs) = (f = g \<and> serial xs)"
| "serial xs = False"

fun resolve :: "lock_event \<Rightarrow> lock_event" where
  "resolve (Call k f) = Call k f"
| "resolve (Settle k out) = Settle k Resolved"

text \<open>The state of one key after a run: what has started and what waits are the calls,
  in the order of the calls; the holder is the one started last and not finished.\<close>

definition key_inv :: "string \<Rightarrow> lock_event list \<Rightarrow> lock_store \<Rightarrow> bool" where
  "key_inv k es s =
     (let l = locks s k; xs = filter (\<lambda>x. execution_key x = k) (executions s) in
      started k (executions s) @ queue l = calls k es
      \<and> (case holder l of
            None \<Rightarrow> queue l = [] \<and> finished k (executions s) = started k (executions s)
                    \<and> serial xs \<and> (xs = [] \<or> (\<exists>f out. last xs = Finished k f out))
          | Some f \<Rightarrow> started k (executions s) = finished k (executions s) @ [f]
                    \<and> serial xs \<and> xs \<noteq> [] \<and> last xs = Started k f))"

fun forget :: "execution \<Rightarrow> execution" where
  "forget (Started k f) = Started k f"
| "forget (Finished k f out) = Finished k f Resolved"

definition key_view :: "string \<Rightarrow> lock_store \<Rightarrow> lock \<times> execution list" where
  "key_view k s = (locks s k, filter (\<lambda>x. execution_key x = k) (executions s))"

text \<open>One step seen from a single key: the lock of the key and its executions.\<close>

fun view_step :: "string \<Rightarrow> lock \<times> execution list \<Rightarrow> lock_event \<Rightarrow> lock \<times> execution list" where
  "view_step k (l, xs) (Call k' f) =
     (case holder l of
        None \<Rightarrow> (l\<lparr>holder := Some f\<rparr>, xs @ [Started k f])
      | Some g \<Rightarrow> (l\<lparr>queue := queue l @ [f]\<rparr>, xs))"
| "view_step k (l, xs) (Settle k' out) =
     (case holder l of
        None \<Rightarrow> (l, xs)
      | Some f \<Rightarrow>
          (case queue l of
             [] \<Rightarrow> (l\<lparr>holder := None\<rparr>, xs @ [Finished k f out])
           | g # waiting \<Rightarrow>
               (\<lparr>holder = Some g, queue = waiting\<rparr>, xs @ [Finished k f out, Started k g])))"

definition pending :: "string \<Rightarrow> lock_store \<Rightarrow> nat" where
  "pending k s = (case holder (locks s k) of None \<Rightarrow> 0 | Some f \<Rightarrow> Suc (length (queue (locks s k))))"

text \<open>The scenario of the test "counts sequentially": four calls on the key
  \<open>count\<close> before any critical section settles.\<close>

definition counts :: "lock_event list" where
  "counts = [Call ''count'' 0, Call ''count'' 1, Call ''count'' 2, Call ''count'' 3]"

section \<open>The dispatcher: order and fail-fast\<close>

lemma deploy_one_eq:
  "deploy_one gh own rep ref tv data d w =
     (let c = deploy_request own rep ref (getDeployBody gh tv d data) in
      case createDeployment gh (trace w) c of
        Inl e \<Rightarrow>
          (Inl e, w\<lparr>trace := trace w @ [(CreateDeployment c, False)],
                     logs := logs w @ [(Info, ''deploy: deploying''), (Err, ''deploy: failed'')]\<rparr>)
      | Inr x \<Rightarrow>
          (Inr x, w\<lparr>trace := trace w @ [(CreateDeployment c, True)],
                     logs := logs w @ [(Info, ''deploy: deploying''),
                                       (Info, ''deploy: successful'')]\<rparr>))"
  by (simp add: deploy_one_def try_catch_def await_def log_def request_def
        Let_def return_def throw_def split: sum.splits)

lemma deploy_one_fst:
  "fst (deploy_one gh own rep ref tv data d w) = deploy_answer gh own rep ref tv data (trace w) d"
  by (simp add: deploy_one_eq deploy_answer_def Let_def split: sum.splits)

lemma deploy_one_trace:
  "trace (snd (deploy_one gh own rep ref tv data d w)) =
     trace w @ [(deploy_call gh own rep ref tv data d,
                 \<not> isl (deploy_answer gh own rep ref tv data (trace w) d))]"
  by (simp add: deploy_one_eq deploy_call_def deploy_answer_def Let_def split: sum.splits)

lemma deploy_loop_run:
  assumes "deploy_loop gh own rep ref tv data ds deployed w = (r, w')"
  shows "case r of
      Inr recs \<Rightarrow>
        trace w' = trace w @ map (\<lambda>d. (deploy_call gh own rep ref tv data d, True)) ds
        \<and> (\<exists>news. recs = deployed @ news \<and> length news = length ds
             \<and> (\<forall>i<length ds.
                   deploy_answer gh own rep ref tv data
                     (trace w @ map (\<lambda>d. (deploy_call gh own rep ref tv data d, True)) (take i ds))
                     (ds ! i) = Inr (news ! i)))
    | Inl e \<Rightarrow>
        (\<exists>k<length ds.
           trace w' = trace w
             @ map (\<lambda>d. (deploy_call gh own rep ref tv data d, True)) (take k ds)
             @ [(deploy_call gh own rep ref tv data (ds ! k), False)]
           \<and> deploy_answer gh own rep ref tv data
                 (trace w @ map (\<lambda>d. (deploy_call gh own rep ref tv data d, True)) (take k ds))
                 (ds ! k) = Inl e)"
  using assms
proof (induction ds arbitrary: deployed w)
  case Nil
  then show ?case by (auto simp: return_def)
next
  case (Cons d ds)
  let ?ev = "\<lambda>d. (deploy_call gh own rep ref tv data d, True)"
  let ?ans = "deploy_answer gh own rep ref tv data"
  obtain r1 w1 where one: "deploy_one gh own rep ref tv data d w = (r1, w1)"
    by (cases "deploy_one gh own rep ref tv data d w")
  have r1: "r1 = ?ans (trace w) d"
    using deploy_one_fst [of gh own rep ref tv data d w] one by simp
  have t1: "trace w1 = trace w @ [(deploy_call gh own rep ref tv data d, \<not> isl r1)]"
    using deploy_one_trace [of gh own rep ref tv data d w] one r1 by simp
  show ?case
  proof (cases r1)
    case (Inl e)
    with Cons.prems one have "r = Inl e" "w' = w1" by (auto simp: await_def)
    with t1 Inl r1 show ?thesis by (auto intro!: exI [of _ 0])
  next
    case (Inr x)
    with Cons.prems one
    have rest: "deploy_loop gh own rep ref tv data ds (deployed @ [x]) w1 = (r, w')"
      by (auto simp: await_def)
    have t1': "trace w1 = trace w @ [?ev d]" using t1 Inr by simp
    note ih = Cons.IH [OF rest]
    show ?thesis
    proof (cases r)
      case (Inr recs)
      with ih obtain news where news: "trace w' = trace w1 @ map ?ev ds"
        "recs = (deployed @ [x]) @ news" "length news = length ds"
        "\<forall>i<length ds. ?ans (trace w1 @ map ?ev (take i ds)) (ds ! i) = Inr (news ! i)"
        by auto
      have "\<forall>i<length (d # ds).
              ?ans (trace w @ map ?ev (take i (d # ds))) ((d # ds) ! i) = Inr ((x # news) ! i)"
      proof (intro allI impI)
        fix i assume "i < length (d # ds)"
        then show "?ans (trace w @ map ?ev (take i (d # ds))) ((d # ds) ! i)
                     = Inr ((x # news) ! i)"
          using news(4) t1' r1 \<open>r1 = Inr x\<close> by (cases i) auto
      qed
      moreover have "recs = deployed @ (x # news)" using news(2) by simp
      moreover have "length (x # news) = length (d # ds)" using news(3) by simp
      moreover have "trace w' = trace w @ map ?ev (d # ds)" using news(1) t1' by simp
      ultimately show ?thesis using Inr by (simp only: sum.case) blast
    next
      case (Inl e)
      with ih obtain k where k: "k < length ds"
        "trace w' = trace w1 @ map ?ev (take k ds)
           @ [(deploy_call gh own rep ref tv data (ds ! k), False)]"
        "?ans (trace w1 @ map ?ev (take k ds)) (ds ! k) = Inl e" by auto
      with t1' Inl show ?thesis
        by (auto intro!: exI [of _ "Suc k"])
    qed
  qed
qed

lemma map_of_map_entry:
  "map_of (map (\<lambda>(k, t). (k, f k t)) conf) key = map_option (f key) (map_of conf key)"
  by (induction conf) auto

text \<open>
  Claim C1. Once the commit and the configuration are fetched and the target is found,
  \<open>deployCommit\<close> sends one \<open>createDeployment\<close> request per entry of the target's
  deployments, in the order of the list, each after the answer to the one before. If
  the provider fails the request for entry \<open>k\<close>, the requests for the entries before
  it were sent and succeeded (those deployments stay), none is sent for a later entry,
  and the provider's error is thrown. The list of records is returned only when every
  request succeeded, and record \<open>i\<close> is then the provider's answer to request \<open>i\<close>.
  A target without deployments is refused before any request.
\<close>

theorem deployCommit_fail_fast:
  assumes commit: "getCommit gh (trace w) own rep sha = Inr commit"
      and content: "getContents gh (trace w @ [(GetCommit own rep sha, True)]) own rep ref
                      config_path = Inr content"
      and conf: "parse gh content = Inr conf"
      and found: "map_of conf (js_string tgt) = Some tv0"
      and ds: "ds = or_list (deployments tv0) []"
      and tv: "tv = tv0\<lparr>name := js_string tgt, deployments := Some ds\<rparr>"
      and data: "data = \<lparr>p_ref = ref, p_target = tgt, p_owner = own, p_repo = rep,
                   p_short_sha = take 7 sha, p_commit = commit,
                   p_pr = map_option pr_number pr, p_pull_request = pr\<rparr>"
      and pre: "pre = trace w @ [(GetCommit own rep sha, True),
                                 (GetContents own rep ref config_path, True)]"
      and run: "deployCommit gh own rep tgt ref sha pr w = (r, w')"
  shows "case r of
      Inr recs \<Rightarrow>
        trace w' = pre @ map (\<lambda>d. (deploy_call gh own rep ref tv data d, True)) ds
        \<and> length recs = length ds
        \<and> (\<forall>i<length ds.
              deploy_answer gh own rep ref tv data
                (pre @ map (\<lambda>d. (deploy_call gh own rep ref tv data d, True)) (take i ds))
                (ds ! i) = Inr (recs ! i))
    | Inl e \<Rightarrow>
        (ds = [] \<and> trace w' = pre) \<or>
        (\<exists>k<length ds.
           trace w' = pre
             @ map (\<lambda>d. (deploy_call gh own rep ref tv data d, True)) (take k ds)
             @ [(deploy_call gh own rep ref tv data (ds ! k), False)]
           \<and> deploy_answer gh own rep ref tv data
                 (pre @ map (\<lambda>d. (deploy_call gh own rep ref tv data d, True)) (take k ds))
                 (ds ! k) = Inl e)"
proof -
  let ?w1 = "w\<lparr>trace := trace w @ [(GetCommit own rep sha, True)]\<rparr>"
  let ?w2 = "w\<lparr>trace := pre\<rparr>"
  let ?conf = "map (\<lambda>(key, t). (key, t\<lparr>name := key,
                                deployments := Some (or_list (deployments t) [])\<rparr>)) conf"
  have c1: "request (GetCommit own rep sha) (\<lambda>h. getCommit gh h own rep sha) w
              = (Inr commit, ?w1)"
    using commit by (simp add: request_def)
  have c2: "config gh own rep ref ?w1 = (Inr ?conf, ?w2)"
    using content conf pre by (simp add: config_def request_def await_def return_def)
  have look: "map_of ?conf (js_string tgt) = Some tv"
    using found ds tv by (simp add: map_of_map_entry)
  have dep: "deployments tv = Some ds" using tv by simp
  show ?thesis
  proof (cases "ds = []")
    case True
    have "deployCommit gh own rep tgt ref sha pr w =
            (Inl (no_deployments tgt),
             ?w2\<lparr>logs := logs w @ [(Info, ''deploy: failed - no deployments'')]\<rparr>)"
      using c1 c2 look dep True
      by (simp add: deployCommit_def await_def Let_def throw_def log_def)
    with run True show ?thesis by auto
  next
    case False
    have "deployCommit gh own rep tgt ref sha pr w =
            deploy_loop gh own rep ref tv data ds [] ?w2"
      using c1 c2 look dep False data
      by (simp add: deployCommit_def await_def Let_def)
    with run have loop: "deploy_loop gh own rep ref tv data ds [] ?w2 = (r, w')" by simp
    show ?thesis
      using deploy_loop_run [OF loop] False by (auto split: sum.splits)
  qed
qed

text \<open>The target with deployments \<open>[staging, production]\<close> on the provider that accepts
  staging and refuses production: the error is thrown after two requests, of which
  exactly one created a deployment.\<close>

theorem deployCommit_fail_fast_witness:
  "getCommit (hub\<lparr>createDeployment := conflict\<rparr>) (trace w0) ''acme'' ''shop'' ''c0ffee11''
     = Inr JNull
   \<and> parse (hub\<lparr>createDeployment := conflict\<rparr>) ''targets'' = Inr [(''web'', web)]
   \<and> fst (deployCommit (hub\<lparr>createDeployment := conflict\<rparr>) ''acme'' ''shop'' (Some ''web'')
           ''main'' ''c0ffee11'' None w0) = Inl (Error ''Conflict'')
   \<and> map (\<lambda>(c, ok). (is_create c, ok))
       (trace (snd (deployCommit (hub\<lparr>createDeployment := conflict\<rparr>) ''acme'' ''shop''
                      (Some ''web'') ''main'' ''c0ffee11'' None w0)))
     = [(False, True), (False, True), (True, True), (True, False)]"
proof -
  let ?gh = "hub\<lparr>createDeployment := conflict\<rparr>"
  obtain r w' where run:
    "deployCommit ?gh ''acme'' ''shop'' (Some ''web'') ''main'' ''c0ffee11'' None w0 = (r, w')"
    by (cases "deployCommit ?gh ''acme'' ''shop'' (Some ''web'') ''main'' ''c0ffee11'' None w0")
  have h1: "getCommit ?gh (trace w0) ''acme'' ''shop'' ''c0ffee11'' = Inr JNull"
    by (simp add: hub_def)
  have h2: "getContents ?gh (trace w0 @ [(GetCommit ''acme'' ''shop'' ''c0ffee11'', True)])
              ''acme'' ''shop'' ''main'' config_path = Inr ''targets''"
    by (simp add: hub_def)
  have h3: "parse ?gh ''targets'' = Inr [(''web'', web)]"
    by (simp add: hub_def)
  have h4: "map_of [(''web'', web)] (js_string (Some ''web'')) = Some web"
    by simp
  define tv where "tv = web\<lparr>name := js_string (Some ''web''),
                              deployments := Some [staging, production]\<rparr>"
  define data where "data = \<lparr>p_ref = ''main'', p_target = Some ''web'', p_owner = ''acme'',
                         p_repo = ''shop'', p_short_sha = take 7 ''c0ffee11'', p_commit = JNull,
                         p_pr = map_option pr_number (None :: pull option), p_pull_request = None\<rparr>"
  define pre where "pre = trace w0 @ [(GetCommit ''acme'' ''shop'' ''c0ffee11'', True),
                                      (GetContents ''acme'' ''shop'' ''main'' config_path, True)]"
  have ds: "[staging, production] = or_list (deployments web) []"
    by (simp add: web_def)
  note th = deployCommit_fail_fast [OF h1 h2 h3 h4 ds tv_def data_def pre_def run]
  have r: "r = Inl (Error ''Conflict'')"
    using run
    by (simp add: deployCommit_def config_def await_def request_def return_def throw_def
        try_catch_def log_def deploy_one_def getDeployBody_def deploy_request_def hub_def
        web_def staging_def production_def conflict_def created_def w0_def Let_def
        spread_def config_path_def)
  have ok: "\<not> isl (deploy_answer ?gh own rep ref t p h staging)" for own rep ref t p h
    by (simp add: deploy_answer_def hub_def conflict_def getDeployBody_def deploy_request_def
        staging_def)
  have "\<exists>k<length [staging, production]. trace w' = pre
             @ map (\<lambda>d. (deploy_call ?gh ''acme'' ''shop'' ''main'' tv data d, True))
                 (take k [staging, production])
             @ [(deploy_call ?gh ''acme'' ''shop'' ''main'' tv data
                   ([staging, production] ! k), False)]
          \<and> deploy_answer ?gh ''acme'' ''shop'' ''main'' tv data
               (pre @ map (\<lambda>d. (deploy_call ?gh ''acme'' ''shop'' ''main'' tv data d, True))
                        (take k [staging, production]))
               ([staging, production] ! k) = Inl (Error ''Conflict'')"
    using th r by simp
  then obtain k where k: "k < length [staging, production]"
    and tr: "trace w' = pre
             @ map (\<lambda>d. (deploy_call ?gh ''acme'' ''shop'' ''main'' tv data d, True))
                 (take k [staging, production])
             @ [(deploy_call ?gh ''acme'' ''shop'' ''main'' tv data
                   ([staging, production] ! k), False)]"
    and an: "deploy_answer ?gh ''acme'' ''shop'' ''main'' tv data
               (pre @ map (\<lambda>d. (deploy_call ?gh ''acme'' ''shop'' ''main'' tv data d, True))
                        (take k [staging, production]))
               ([staging, production] ! k) = Inl (Error ''Conflict'')"
    by blast
  have "k \<noteq> 0"
  proof
    assume "k = 0"
    with an ok [of "''acme''" "''shop''" "''main''" tv data pre] show False by simp
  qed
  with k have "k = 1" by simp
  with tr have "map (\<lambda>(c, ok). (is_create c, ok)) (trace w')
                  = [(False, True), (False, True), (True, True), (True, False)]"
    by (simp add: pre_def w0_def deploy_call_def)
  with run r h1 h3 show ?thesis by simp
qed


section \<open>Evaluating the handlers on the example repository\<close>

lemmas run_defs = await_def request_def return_def throw_def try_catch_def log_def Let_def
lemmas deploy_defs = deployCommit_def config_def config_path_def deploy_one_def
  getDeployBody_def deploy_request_def spread_def no_target_def no_deployments_def
lemmas auto_defs = commands_def handleAutoDeploy_def autoDeployTarget_def startsWith_def
  for_in_def array_index_def is_digit_def digits_value_def
lemmas close_defs = handlePRClose_def mark_inactive_def remove_body_def field_body_def
  empty_object_def assign_def keys_in_def lookup_def
  for_in_def array_index_def is_digit_def digits_value_def status_call_def
lemmas site_defs = hub_def w0_def web_def staging_def production_def created_def item_def

section \<open>Properties of the teardown handler\<close>

lemma mark_inactive_fst: "fst (mark_inactive gh ctx d w) = Inr ()"
  by (simp add: mark_inactive_def try_catch_def await_def log_def request_def Let_def
      split: prod.splits sum.splits)

lemma mark_inactive_requests:
  "requests (snd (mark_inactive gh ctx d w)) = requests w @ [status_call ctx d]"
  by (simp add: mark_inactive_def try_catch_def await_def log_def request_def Let_def
      status_call_def requests_def split: prod.splits sum.splits)

lemma mark_loop_fst:
  "fst (mark_loop gh ctx ds envs w) =
     Inr (fold (\<lambda>d. assign (d_environment d) d) (filter d_transient_environment ds) envs)"
proof (induction ds arbitrary: envs w)
  case Nil
  show ?case by (simp add: return_def)
next
  case (Cons d ds)
  show ?case
  proof (cases "d_transient_environment d")
    case True
    obtain w1 where m: "mark_inactive gh ctx d w = (Inr (), w1)"
      using mark_inactive_fst [of gh ctx d w] by (cases "mark_inactive gh ctx d w") auto
    show ?thesis using True m Cons.IH by (simp add: await_def)
  next
    case False
    then show ?thesis using Cons.IH by (simp add: await_def log_def)
  qed
qed

lemma mark_loop_requests:
  "requests (snd (mark_loop gh ctx ds envs w)) =
     requests w @ map (status_call ctx) (filter d_transient_environment ds)"
proof (induction ds arbitrary: envs w)
  case Nil
  show ?case by (simp add: return_def)
next
  case (Cons d ds)
  show ?case
  proof (cases "d_transient_environment d")
    case True
    obtain w1 where m: "mark_inactive gh ctx d w = (Inr (), w1)"
      using mark_inactive_fst [of gh ctx d w] by (cases "mark_inactive gh ctx d w") auto
    have "requests w1 = requests w @ [status_call ctx d]"
      using mark_inactive_requests [of gh ctx d w] m by simp
    then show ?thesis using True m Cons.IH by (simp add: await_def)
  next
    case False
    then show ?thesis using Cons.IH by (simp add: await_def log_def requests_def)
  qed
qed

text \<open>The request that the second loop builds from what it finds under a key.\<close>

lemma remove_item_fst: "fst (remove_deploy gh ctx sha (Item d) w) = Inr ()"
  by (simp add: try_catch_def await_def log_def request_def Let_def return_def
      split: prod.splits sum.splits)

lemma remove_item_requests:
  "requests (snd (remove_deploy gh ctx sha (Item d) w)) =
     requests w @ [CreateDeployment (remove_body ctx sha d)]"
  by (simp add: try_catch_def await_def log_def request_def Let_def return_def
      requests_def split: prod.splits sum.splits)

lemma remove_slot_requests:
  "\<exists>qs. requests (snd (remove_deploy gh ctx sha s w)) = requests w @ map CreateDeployment qs
        \<and> set qs \<subseteq> {slot_body ctx sha s}"
proof (cases s)
  case (Item d)
  then show ?thesis
    using remove_item_requests [of gh ctx sha d w]
    by (intro exI [of _ "[remove_body ctx sha d]"]) simp
next
  case (Inherited v)
  show ?thesis
  proof (cases "v = JNull \<or> v = JUndefined")
    case True
    with Inherited show ?thesis by (intro exI [of _ "[]"]) (auto simp: throw_def)
  next
    case False
    with Inherited show ?thesis
      by (intro exI [of _ "[field_body ctx sha v]"])
         (simp add: try_catch_def await_def log_def request_def Let_def return_def
            requests_def split: prod.splits sum.splits)
  qed
qed

lemma remove_loop_requests:
  "\<exists>qs. requests (snd (remove_loop gh ctx sha obj ks w)) = requests w @ map CreateDeployment qs
        \<and> (\<forall>q\<in>set qs. \<exists>k s. lookup obj k = Some s \<and> q = slot_body ctx sha s)"
proof (induction ks arbitrary: w)
  case Nil
  show ?case by (intro exI [of _ "[]"]) (simp add: return_def)
next
  case (Cons k ks)
  show ?case
  proof (cases "lookup obj k")
    case None
    then show ?thesis by (intro exI [of _ "[]"]) (simp add: throw_def)
  next
    case (Some s)
    obtain r w1 where one: "remove_deploy gh ctx sha s w = (r, w1)"
      by (cases "remove_deploy gh ctx sha s w")
    from remove_slot_requests [of gh ctx sha s w] one
    obtain qs1 where q1: "requests w1 = requests w @ map CreateDeployment qs1"
      "set qs1 \<subseteq> {slot_body ctx sha s}" by auto
    show ?thesis
    proof (cases r)
      case (Inl e)
      with Some one q1 show ?thesis
        by (intro exI [of _ qs1]) (auto simp: await_def)
    next
      case (Inr u)
      from Cons.IH [of w1] obtain qs2
        where q2: "requests (snd (remove_loop gh ctx sha obj ks w1))
                     = requests w1 @ map CreateDeployment qs2"
          "\<forall>q\<in>set qs2. \<exists>k s. lookup obj k = Some s \<and> q = slot_body ctx sha s" by blast
      with Some one q1 Inr show ?thesis
        by (intro exI [of _ "qs1 @ qs2"]) (auto simp: await_def)
    qed
  qed
qed

lemma map_of_update_cases:
  "map_of (AList.update k v al) k' = Some d \<Longrightarrow> (k' = k \<and> d = v) \<or> map_of al k' = Some d"
  by (auto simp: AList.update_conv' split: if_splits)

lemma assigned_property:
  "map_of (properties (fold (\<lambda>d. assign (d_environment d) d) xs obj)) k = Some d
     \<Longrightarrow> d \<in> set xs \<or> map_of (properties obj) k = Some d"
proof (induction xs arbitrary: obj)
  case Nil
  then show ?case by simp
next
  case (Cons x xs)
  from Cons.IH [of "assign (d_environment x) x obj"] Cons.prems
  have "d \<in> set xs \<or> map_of (properties (assign (d_environment x) x obj)) k = Some d"
    by simp
  then show ?case
    by (auto simp: assign_def dest: map_of_update_cases split: if_splits)
qed

lemma assigned_prototype:
  "prototype (fold (\<lambda>d. assign (d_environment d) d) xs obj) = Some p
     \<Longrightarrow> (p \<in> set xs \<and> d_environment p = ''__proto__'') \<or> prototype obj = Some p"
proof (induction xs arbitrary: obj)
  case Nil
  then show ?case by simp
next
  case (Cons x xs)
  from Cons.IH [of "assign (d_environment x) x obj"] Cons.prems
  have "(p \<in> set xs \<and> d_environment p = ''__proto__'')
          \<or> prototype (assign (d_environment x) x obj) = Some p"
    by simp
  then show ?case
    by (auto simp: assign_def split: if_splits)
qed

lemma recorded_slot:
  assumes "lookup (recorded (rev data)) k = Some s"
  shows "(\<exists>t\<in>set data. d_transient_environment t \<and> s = Item t)
       \<or> (\<exists>p\<in>set data. d_transient_environment p \<and> d_environment p = ''__proto__''
             \<and> (\<exists>v\<in>snd ` set (d_properties p). s = Inherited v))"
proof (cases "map_of (properties (recorded (rev data))) k")
  case (Some t)
  with assms have s: "s = Item t" by (simp add: lookup_def)
  from Some assigned_property [of "filter d_transient_environment (rev data)" empty_object k t]
  have "t \<in> set data \<and> d_transient_environment t"
    by (auto simp: recorded_def empty_object_def)
  with s show ?thesis by blast
next
  case None
  with assms obtain p v where p: "prototype (recorded (rev data)) = Some p"
    and v: "map_of (d_properties p) k = Some v" and s: "s = Inherited v"
    by (auto simp: lookup_def split: option.splits)
  from p assigned_prototype [of "filter d_transient_environment (rev data)" empty_object p]
  have "p \<in> set data \<and> d_transient_environment p \<and> d_environment p = ''__proto__''"
    by (auto simp: recorded_def empty_object_def)
  moreover from v have "v \<in> snd ` set (d_properties p)"
    by (auto dest: map_of_SomeD intro: rev_image_eqI)
  ultimately show ?thesis using s by blast
qed

lemma handlePRClose_eq:
  assumes ev: "event ctx = Pull_request_closed ref sha"
      and ls: "listDeployments gh (trace w) (owner ctx) (repo ctx) None (Some ref) = Inr data"
  shows "\<exists>w3. handlePRClose gh ctx w
                 = remove_loop gh ctx sha (recorded (rev data)) (keys_in (recorded (rev data))) w3
             \<and> requests w3
                 = requests w
                   @ ListDeployments (owner ctx) (repo ctx) None (Some ref) (Some preview_accept)
                   # map (status_call ctx) (filter d_transient_environment (rev data))"
proof -
  let ?list = "ListDeployments (owner ctx) (repo ctx) None (Some ref) (Some preview_accept)"
  let ?E = "recorded (rev data)"
  define w1 where "w1 = w\<lparr>trace := trace w @ [(?list, True)],
                            logs := logs w @ [(Info, ''pr close: listed deploys'')]\<rparr>"
  define w2 where "w2 = snd (mark_loop gh ctx (rev data) empty_object w1)"
  define w3 where "w3 = w2\<lparr>logs := logs w2 @ [(Info, ''pr close: remove deploys'')]\<rparr>"
  have m: "mark_loop gh ctx (rev data) empty_object w1 = (Inr ?E, w2)"
    using mark_loop_fst [of gh ctx "rev data" empty_object w1]
    by (cases "mark_loop gh ctx (rev data) empty_object w1") (simp add: w2_def recorded_def)
  have run: "handlePRClose gh ctx w = remove_loop gh ctx sha ?E (keys_in ?E) w3"
    using ev ls m by (simp add: handlePRClose_def await_def request_def log_def w1_def w3_def)
  have r1: "requests w1 = requests w @ [?list]" by (simp add: w1_def requests_def)
  have r2: "requests w2
              = requests w1 @ map (status_call ctx) (filter d_transient_environment (rev data))"
    unfolding w2_def by (rule mark_loop_requests)
  have r3: "requests w3 = requests w2" by (simp add: w3_def requests_def)
  from run r1 r2 r3 show ?thesis by (intro exI [of _ w3]) simp
qed

text \<open>
  Claim C4. The requests of a teardown pass are the listing, then one status update
  for each transient deployment of the listing, in the order in which the loop visits
  them, then remove requests. Each remove request is built from a transient deployment
  of the listing or, when a transient deployment has the environment \<open>__proto__\<close>, from
  the value of a field of that transient deployment. So no status update is sent for a
  deployment that is not transient, and no remove request is built from one.
\<close>

theorem teardown_skips_non_transient:
  assumes ev: "event ctx = Pull_request_closed ref sha"
      and ls: "listDeployments gh (trace w) (owner ctx) (repo ctx) None (Some ref) = Inr data"
  shows "\<exists>qs. requests (snd (handlePRClose gh ctx w))
                = requests w
                  @ ListDeployments (owner ctx) (repo ctx) None (Some ref) (Some preview_accept)
                  # map (status_call ctx) (filter d_transient_environment (rev data))
                  @ map CreateDeployment qs
             \<and> (\<forall>q\<in>set qs.
                   (\<exists>t\<in>set data. d_transient_environment t \<and> q = remove_body ctx sha t)
                 \<or> (\<exists>p\<in>set data. d_transient_environment p
                       \<and> d_environment p = ''__proto__''
                       \<and> (\<exists>v\<in>snd ` set (d_properties p). q = field_body ctx sha v)))"
proof -
  let ?E = "recorded (rev data)"
  from handlePRClose_eq [OF ev ls] obtain w3
    where run: "handlePRClose gh ctx w = remove_loop gh ctx sha ?E (keys_in ?E) w3"
      and r3: "requests w3
                 = requests w
                   @ ListDeployments (owner ctx) (repo ctx) None (Some ref) (Some preview_accept)
                   # map (status_call ctx) (filter d_transient_environment (rev data))"
    by blast
  from remove_loop_requests [of gh ctx sha ?E "keys_in ?E" w3] obtain qs
    where qs: "requests (snd (remove_loop gh ctx sha ?E (keys_in ?E) w3))
                 = requests w3 @ map CreateDeployment qs"
      and src: "\<forall>q\<in>set qs. \<exists>k s. lookup ?E k = Some s \<and> q = slot_body ctx sha s"
    by blast
  have "\<forall>q\<in>set qs.
          (\<exists>t\<in>set data. d_transient_environment t \<and> q = remove_body ctx sha t)
        \<or> (\<exists>p\<in>set data. d_transient_environment p
              \<and> d_environment p = ''__proto__''
              \<and> (\<exists>v\<in>snd ` set (d_properties p). q = field_body ctx sha v))"
  proof
    fix q assume "q \<in> set qs"
    with src obtain k s where s: "lookup ?E k = Some s" "q = slot_body ctx sha s" by blast
    from recorded_slot [OF s(1)]
    consider t where "t \<in> set data" "d_transient_environment t" "s = Item t"
      | p v where "p \<in> set data" "d_transient_environment p" "d_environment p = ''__proto__''"
          "v \<in> snd ` set (d_properties p)" "s = Inherited v"
      by blast
    then show "(\<exists>t\<in>set data. d_transient_environment t \<and> q = remove_body ctx sha t)
        \<or> (\<exists>p\<in>set data. d_transient_environment p
              \<and> d_environment p = ''__proto__''
              \<and> (\<exists>v\<in>snd ` set (d_properties p). q = field_body ctx sha v))"
    proof cases
      case 1
      with s(2) show ?thesis by auto
    next
      case 2
      with s(2) have "q = field_body ctx sha v" by simp
      with 2 show ?thesis by blast
    qed
  qed
  with run qs r3 show ?thesis by (intro exI [of _ qs]) simp
qed

lemma set_for_in: "set (for_in obj) = fst ` set obj"
  by (auto simp: for_in_def Let_def)

lemma distinct_for_in: "distinct (map fst obj) \<Longrightarrow> distinct (for_in obj)"
  by (auto simp: for_in_def Let_def)

lemma distinct_fold_update:
  "distinct (map fst envs) \<Longrightarrow> distinct (map fst (fold (\<lambda>d. AList.update (f d) d) xs envs))"
  by (induction xs arbitrary: envs) (simp_all add: AList.distinct_update)

lemma find_app:
  "find P (xs @ ys) = (case find P xs of None \<Rightarrow> find P ys | Some x \<Rightarrow> Some x)"
  by (induction xs) auto

lemma map_of_fold_update:
  "map_of (fold (\<lambda>d. AList.update (f d) d) xs envs) e =
     (case find (\<lambda>d. f d = e) (rev xs) of None \<Rightarrow> map_of envs e | Some d \<Rightarrow> Some d)"
proof (induction xs arbitrary: envs)
  case Nil
  show ?case by simp
next
  case (Cons x xs)
  show ?case
    by (auto simp add: Cons.IH find_app AList.update_conv' split: option.splits)
qed

lemma find_filter: "find P (filter Q xs) = find (\<lambda>x. Q x \<and> P x) xs"
  by (induction xs) auto

text \<open>Without the key \<open>__proto__\<close>, every assignment adds or replaces an own property.\<close>

lemma assign_regular:
  "\<forall>d\<in>set xs. d_environment d \<noteq> ''__proto__'' \<Longrightarrow>
   fold (\<lambda>d. assign (d_environment d) d) xs obj =
     obj\<lparr>properties := fold (\<lambda>d. AList.update (d_environment d) d) xs (properties obj)\<rparr>"
  by (induction xs arbitrary: obj) (simp_all add: assign_def)

lemma recorded_regular:
  assumes "regular data"
  shows "recorded (rev data) =
           \<lparr>properties = fold (\<lambda>d. AList.update (d_environment d) d)
                            (filter d_transient_environment (rev data)) [],
            prototype = None\<rparr>"
proof -
  from assms
  have "\<forall>d\<in>set (filter d_transient_environment (rev data)). d_environment d \<noteq> ''__proto__''"
    by (auto simp: regular_def list_all_iff)
  from assign_regular [OF this, of empty_object] show ?thesis
    by (simp add: recorded_def empty_object_def)
qed

lemma map_of_recorded:
  assumes "regular data"
  shows "map_of (properties (recorded (rev data))) e =
           find (\<lambda>d. d_transient_environment d \<and> d_environment d = e) data"
  by (simp add: recorded_regular [OF assms] map_of_fold_update rev_filter [symmetric] find_filter
      split: option.splits)

lemma distinct_recorded:
  assumes "regular data"
  shows "distinct (map fst (properties (recorded (rev data))))"
  by (simp add: recorded_regular [OF assms] distinct_fold_update)

lemma remove_loop_items:
  assumes "prototype obj = None"
      and "\<forall>k\<in>set ks. map_of (properties obj) k \<noteq> None"
  shows "fst (remove_loop gh ctx sha obj ks w) = Inr () \<and>
         requests (snd (remove_loop gh ctx sha obj ks w)) =
           requests w
           @ map (\<lambda>k. CreateDeployment (remove_body ctx sha (the (map_of (properties obj) k)))) ks"
  using assms(2)
proof (induction ks arbitrary: w)
  case Nil
  show ?case by (simp add: return_def)
next
  case (Cons k ks)
  then obtain d where d: "map_of (properties obj) k = Some d" by auto
  then have look: "lookup obj k = Some (Item d)" by (simp add: lookup_def)
  obtain w1 where m: "remove_deploy gh ctx sha (Item d) w = (Inr (), w1)"
    using remove_item_fst [of gh ctx sha d w]
    by (cases "remove_deploy gh ctx sha (Item d) w") auto
  have "requests w1 = requests w @ [CreateDeployment (remove_body ctx sha d)]"
    using remove_item_requests [of gh ctx sha d w] m by simp
  then show ?case using Cons d look m by (simp add: await_def)
qed

text \<open>
  The teardown of a regular listing. The handler returns normally; after the listing
  and the status updates it sends one "remove" request per environment of a transient
  deployment, built from the first transient deployment listed for that environment,
  whatever the provider answered to the status updates.
\<close>

lemma teardown_regular:
  assumes ev: "event ctx = Pull_request_closed ref sha"
      and ls: "listDeployments gh (trace w) (owner ctx) (repo ctx) None (Some ref) = Inr data"
      and reg: "regular data"
  shows "fst (handlePRClose gh ctx w) = Inr ()
       \<and> (\<exists>ts. requests (snd (handlePRClose gh ctx w))
                  = requests w
                    @ ListDeployments (owner ctx) (repo ctx) None (Some ref)
                        (Some preview_accept)
                    # map (status_call ctx) (filter d_transient_environment (rev data))
                    @ map (\<lambda>t. CreateDeployment (remove_body ctx sha t)) ts
               \<and> distinct (map d_environment ts)
               \<and> set (map d_environment ts)
                   = d_environment ` {d \<in> set data. d_transient_environment d}
               \<and> (\<forall>t\<in>set ts.
                     find (\<lambda>d. d_transient_environment d
                               \<and> d_environment d = d_environment t) data = Some t))"
proof -
  let ?E = "recorded (rev data)"
  let ?P = "properties ?E"
  define ts where "ts = map (\<lambda>k. the (map_of ?P k)) (for_in ?P)"
  have proto: "prototype ?E = None" by (simp add: recorded_regular [OF reg])
  then have keys: "keys_in ?E = for_in ?P" by (simp add: keys_in_def)
  have key: "\<exists>t. find (\<lambda>d. d_transient_environment d \<and> d_environment d = k) data = Some t
               \<and> map_of ?P k = Some t \<and> d_environment t = k"
    if "k \<in> set (for_in ?P)" for k
  proof -
    from that obtain t where t: "map_of ?P k = Some t"
      by (auto simp: set_for_in dest: weak_map_of_SomeI)
    then have f: "find (\<lambda>d. d_transient_environment d \<and> d_environment d = k) data = Some t"
      by (simp add: map_of_recorded [OF reg])
    then have "d_environment t = k" by (auto simp: find_Some_iff)
    with t f show ?thesis by simp
  qed
  have dom: "\<forall>k\<in>set (for_in ?P). map_of ?P k \<noteq> None"
    using key by fastforce
  from handlePRClose_eq [OF ev ls] keys obtain w3
    where run: "handlePRClose gh ctx w = remove_loop gh ctx sha ?E (for_in ?P) w3"
      and r3: "requests w3
                 = requests w
                   @ ListDeployments (owner ctx) (repo ctx) None (Some ref) (Some preview_accept)
                   # map (status_call ctx) (filter d_transient_environment (rev data))"
    by auto
  note rl = remove_loop_items [OF proto dom, of gh ctx sha w3]
  have envs: "map d_environment ts = for_in ?P"
  proof -
    have "d_environment (the (map_of ?P k)) = k" if "k \<in> set (for_in ?P)" for k
      using key [OF that] by auto
    then have "map (\<lambda>k. d_environment (the (map_of ?P k))) (for_in ?P) = for_in ?P"
      by (intro map_idI) simp
    then show ?thesis by (simp add: ts_def o_def)
  qed
  have 1: "fst (handlePRClose gh ctx w) = Inr ()" using run rl by simp
  have 2: "requests (snd (handlePRClose gh ctx w))
             = requests w
               @ ListDeployments (owner ctx) (repo ctx) None (Some ref) (Some preview_accept)
               # map (status_call ctx) (filter d_transient_environment (rev data))
               @ map (\<lambda>t. CreateDeployment (remove_body ctx sha t)) ts"
    using run rl r3 by (simp add: ts_def o_def)
  have 3: "distinct (map d_environment ts)"
    using envs distinct_for_in [OF distinct_recorded [OF reg]] by simp
  have 4: "set (map d_environment ts) = d_environment ` {d \<in> set data. d_transient_environment d}"
  proof -
    have "k \<in> set (for_in ?P) \<longleftrightarrow> (\<exists>d\<in>set data. d_transient_environment d \<and> d_environment d = k)"
      for k
    proof
      assume "k \<in> set (for_in ?P)"
      from key [OF this] show "\<exists>d\<in>set data. d_transient_environment d \<and> d_environment d = k"
        by (auto simp: find_Some_iff)
    next
      assume "\<exists>d\<in>set data. d_transient_environment d \<and> d_environment d = k"
      then have "find (\<lambda>d. d_transient_environment d \<and> d_environment d = k) data \<noteq> None"
        by (auto simp: find_None_iff)
      then obtain t where "map_of ?P k = Some t" by (auto simp: map_of_recorded [OF reg])
      then show "k \<in> set (for_in ?P)"
        by (auto simp: set_for_in dest: map_of_SomeD intro: rev_image_eqI)
    qed
    then show ?thesis unfolding envs by auto
  qed
  have 5: "\<forall>t\<in>set ts. find (\<lambda>d. d_transient_environment d
                              \<and> d_environment d = d_environment t) data = Some t"
    unfolding ts_def using key by fastforce
  from 1 2 3 4 5 show ?thesis by blast
qed

text \<open>On a regular listing, a remove request for the environment of every transient
  deployment is sent at the head commit, whatever the provider answers to the status
  updates.\<close>

lemma teardown_regular_removal:
  assumes ev: "event ctx = Pull_request_closed ref sha"
      and ls: "listDeployments gh (trace w) (owner ctx) (repo ctx) None (Some ref) = Inr data"
      and reg: "regular data"
      and d: "d \<in> set data" "d_transient_environment d"
  shows "\<exists>t. find (\<lambda>x. d_transient_environment x \<and> d_environment x = d_environment d) data
               = Some t
           \<and> CreateDeployment (remove_body ctx sha t)
               \<in> set (requests (snd (handlePRClose gh ctx w)))
           \<and> q_task (remove_body ctx sha t) = ''remove''
           \<and> q_ref (remove_body ctx sha t) = sha
           \<and> q_environment (remove_body ctx sha t) = JStr (d_environment d)"
proof -
  from teardown_regular [OF ev ls reg] obtain ts
    where rq: "requests (snd (handlePRClose gh ctx w))
                  = requests w
                    @ ListDeployments (owner ctx) (repo ctx) None (Some ref)
                        (Some preview_accept)
                    # map (status_call ctx) (filter d_transient_environment (rev data))
                    @ map (\<lambda>t. CreateDeployment (remove_body ctx sha t)) ts"
      and envs: "set (map d_environment ts)
                   = d_environment ` {d \<in> set data. d_transient_environment d}"
      and tpl: "\<forall>t\<in>set ts. find (\<lambda>d. d_transient_environment d
                               \<and> d_environment d = d_environment t) data = Some t"
    by blast
  from d envs have "d_environment d \<in> set (map d_environment ts)" by blast
  then obtain t where t: "t \<in> set ts" "d_environment t = d_environment d" by auto
  with tpl have "find (\<lambda>x. d_transient_environment x \<and> d_environment x = d_environment d) data
                   = Some t" by fastforce
  moreover from t rq have "CreateDeployment (remove_body ctx sha t)
               \<in> set (requests (snd (handlePRClose gh ctx w)))" by simp
  ultimately show ?thesis using t by (simp add: remove_body_def)
qed

text \<open>The deployment \<open>live\<close> is not transient: the requests are the listing, the two
  status updates of the previews and the removal of the preview listed first.\<close>

theorem teardown_skips_non_transient_witness:
  "event closed = Pull_request_closed ''feature'' ''c0ffee11''
   \<and> listDeployments (hub\<lparr>listDeployments := listed\<rparr>) (trace w0) (owner closed) (repo closed)
       None (Some ''feature'') = Inr [preview2, preview1, live]
   \<and> \<not> d_transient_environment live
   \<and> requests (snd (handlePRClose (hub\<lparr>listDeployments := listed\<rparr>) closed w0))
     = [ListDeployments ''acme'' ''shop'' None (Some ''feature'') (Some preview_accept),
        status_call closed preview1,
        status_call closed preview2,
        CreateDeployment (remove_body closed ''c0ffee11'' preview2)]"
proof -
  have h1: "event closed = Pull_request_closed ''feature'' ''c0ffee11''"
    by (simp add: closed_def)
  have h2: "listDeployments (hub\<lparr>listDeployments := listed\<rparr>) (trace w0) (owner closed)
              (repo closed) None (Some ''feature'') = Inr [preview2, preview1, live]"
    by (simp add: listed_def)
  from teardown_skips_non_transient [OF h1 h2]
  obtain qs where qs:
    "requests (snd (handlePRClose (hub\<lparr>listDeployments := listed\<rparr>) closed w0))
       = requests w0
         @ ListDeployments (owner closed) (repo closed) None (Some ''feature'') (Some preview_accept)
         # map (status_call closed) (filter d_transient_environment (rev [preview2, preview1, live]))
         @ map CreateDeployment qs"
    by blast
  have "requests (snd (handlePRClose (hub\<lparr>listDeployments := listed\<rparr>) closed w0))
     = [ListDeployments ''acme'' ''shop'' None (Some ''feature'') (Some preview_accept),
        status_call closed preview1,
        status_call closed preview2,
        CreateDeployment (remove_body closed ''c0ffee11'' preview2)]"
    by (simp add: run_defs close_defs site_defs closed_def listed_def preview1_def preview2_def
        live_def requests_def)
  moreover have "\<not> d_transient_environment live" by (simp add: live_def item_def)
  ultimately show ?thesis using h1 h2 qs by simp
qed

text \<open>
  Claim C3, at a listing with one transient deployment whose environment is
  \<open>__proto__\<close>. Nothing is recorded under that name: the assignment replaces the prototype
  of \<open>environments\<close>, and the second loop visits the fields of the deployment. The handler
  sends three remove requests, one for each field, all with an undefined environment,
  and none for the environment \<open>__proto__\<close>. The comments of the handler say that it
  undeploys the last deployment of every environment; on a regular listing it does
  (\<open>teardown_regular\<close>).
\<close>

theorem teardown_proto_environment:
  "listDeployments (hub\<lparr>listDeployments := listed_polluting\<rparr>) (trace w0) (owner closed)
     (repo closed) None (Some ''feature'') = Inr [polluting]
   \<and> d_transient_environment polluting \<and> d_environment polluting = ''__proto__''
   \<and> fst (handlePRClose (hub\<lparr>listDeployments := listed_polluting\<rparr>) closed w0) = Inr ()
   \<and> requests (snd (handlePRClose (hub\<lparr>listDeployments := listed_polluting\<rparr>) closed w0))
     = [ListDeployments ''acme'' ''shop'' None (Some ''feature'') (Some preview_accept),
        status_call closed polluting,
        CreateDeployment (field_body closed ''c0ffee11'' (JNum 1)),
        CreateDeployment (field_body closed ''c0ffee11'' (JStr ''__proto__'')),
        CreateDeployment (field_body closed ''c0ffee11'' (JBool True))]
   \<and> map (\<lambda>v. q_environment (field_body closed ''c0ffee11'' v))
       [JNum 1, JStr ''__proto__'', JBool True]
     = [JUndefined, JUndefined, JUndefined]"
  by (simp add: run_defs close_defs site_defs closed_def listed_polluting_def polluting_def
      requests_def)

text \<open>
  Claim C10, at the same listing with a provider that fails every status update. The
  failed update does not stop the pass, but the deployment is not recorded as the
  candidate of its environment: no remove request is sent for the environment
  \<open>__proto__\<close> at the head commit, and the three that are sent have an undefined
  environment. On a regular listing the removal is sent whatever the status update
  answers (\<open>teardown_regular_removal\<close>).
\<close>

theorem removal_proto_environment:
  "d_transient_environment polluting \<and> d_environment polluting = ''__proto__''
   \<and> trace (snd (handlePRClose
        (hub\<lparr>listDeployments := listed_polluting, createDeploymentStatus := unavailable\<rparr>)
        closed w0))
     = [(ListDeployments ''acme'' ''shop'' None (Some ''feature'') (Some preview_accept), True),
        (status_call closed polluting, False),
        (CreateDeployment (field_body closed ''c0ffee11'' (JNum 1)), True),
        (CreateDeployment (field_body closed ''c0ffee11'' (JStr ''__proto__'')), True),
        (CreateDeployment (field_body closed ''c0ffee11'' (JBool True)), True)]
   \<and> CreateDeployment (remove_body closed ''c0ffee11'' polluting)
       \<notin> set (requests (snd (handlePRClose
             (hub\<lparr>listDeployments := listed_polluting, createDeploymentStatus := unavailable\<rparr>)
             closed w0)))
   \<and> map (\<lambda>v. q_environment (field_body closed ''c0ffee11'' v))
       [JNum 1, JStr ''__proto__'', JBool True]
     = [JUndefined, JUndefined, JUndefined]"
  by (simp add: run_defs close_defs site_defs closed_def listed_polluting_def polluting_def
      unavailable_def requests_def)

section \<open>What a run can add to the trace and to the log\<close>

lemma emits_return: "emits P L (return x)"
  by (simp add: emits_def return_def)

lemma emits_throw: "emits P L (throw e)"
  by (simp add: emits_def throw_def)

lemma emits_log: "(l, msg) \<in> L \<Longrightarrow> emits P L (log l msg)"
  by (simp add: emits_def log_def)

lemma emits_request: "P c \<Longrightarrow> emits P L (request c f)"
  by (simp add: emits_def request_def Let_def)

lemma emits_await:
  assumes m: "emits P L m" and k: "\<And>x. emits P L (k x)"
  shows "emits P L (await m k)"
  unfolding emits_def
proof
  fix w
  obtain r w1 where run: "m w = (r, w1)" by (cases "m w")
  from m obtain cs ls where 1: "trace w1 = trace w @ cs" "\<forall>c\<in>set cs. P (fst c)"
    "logs w1 = logs w @ ls" "set ls \<subseteq> L"
    using run unfolding emits_def by (metis snd_conv)
  show "\<exists>cs ls. trace (snd (await m k w)) = trace w @ cs \<and> (\<forall>c\<in>set cs. P (fst c))
                 \<and> logs (snd (await m k w)) = logs w @ ls \<and> set ls \<subseteq> L"
  proof (cases r)
    case (Inl e)
    then show ?thesis using run 1 by (simp add: await_def)
  next
    case (Inr x)
    from k [of x] obtain cs' ls' where 2: "trace (snd (k x w1)) = trace w1 @ cs'"
      "\<forall>c\<in>set cs'. P (fst c)" "logs (snd (k x w1)) = logs w1 @ ls'" "set ls' \<subseteq> L"
      unfolding emits_def by blast
    have "trace (snd (await m k w)) = trace w @ (cs @ cs')"
      and "logs (snd (await m k w)) = logs w @ (ls @ ls')"
      using run Inr 1 2 by (simp_all add: await_def)
    moreover have "\<forall>c\<in>set (cs @ cs'). P (fst c)" "set (ls @ ls') \<subseteq> L"
      using 1 2 by auto
    ultimately show ?thesis by blast
  qed
qed

lemma emits_try_catch:
  assumes m: "emits P L m" and h: "\<And>e. emits P L (h e)"
  shows "emits P L (try_catch m h)"
  unfolding emits_def
proof
  fix w
  obtain r w1 where run: "m w = (r, w1)" by (cases "m w")
  from m obtain cs ls where 1: "trace w1 = trace w @ cs" "\<forall>c\<in>set cs. P (fst c)"
    "logs w1 = logs w @ ls" "set ls \<subseteq> L"
    using run unfolding emits_def by (metis snd_conv)
  show "\<exists>cs ls. trace (snd (try_catch m h w)) = trace w @ cs \<and> (\<forall>c\<in>set cs. P (fst c))
                 \<and> logs (snd (try_catch m h w)) = logs w @ ls \<and> set ls \<subseteq> L"
  proof (cases r)
    case (Inr x)
    then show ?thesis using run 1 by (simp add: try_catch_def)
  next
    case (Inl e)
    from h [of e] obtain cs' ls' where 2: "trace (snd (h e w1)) = trace w1 @ cs'"
      "\<forall>c\<in>set cs'. P (fst c)" "logs (snd (h e w1)) = logs w1 @ ls'" "set ls' \<subseteq> L"
      unfolding emits_def by blast
    have "trace (snd (try_catch m h w)) = trace w @ (cs @ cs')"
      and "logs (snd (try_catch m h w)) = logs w @ (ls @ ls')"
      using run Inl 1 2 by (simp_all add: try_catch_def)
    moreover have "\<forall>c\<in>set (cs @ cs'). P (fst c)" "set (ls @ ls') \<subseteq> L"
      using 1 2 by auto
    ultimately show ?thesis by blast
  qed
qed

lemmas emits_intros = emits_return emits_throw emits_log emits_request emits_await
  emits_try_catch

lemma in_deploy_logs:
  "(Info, ''deploy: deploying'') \<in> deploy_logs"
  "(Info, ''deploy: successful'') \<in> deploy_logs"
  "(Err, ''deploy: failed'') \<in> deploy_logs"
  "(Info, ''deploy: failed - no target'') \<in> deploy_logs"
  "(Info, ''deploy: failed - no deployments'') \<in> deploy_logs"
  by (simp_all add: deploy_logs_def)

lemma emits_deploy_one: "emits is_dispatch deploy_logs (deploy_one gh own rep ref tv data d)"
  by (auto simp: deploy_one_def Let_def in_deploy_logs intro!: emits_intros)

lemma emits_deploy_loop:
  "emits is_dispatch deploy_logs (deploy_loop gh own rep ref tv data ds deployed)"
  by (induction ds arbitrary: deployed) (auto intro!: emits_intros emits_deploy_one)

lemma emits_config: "emits is_dispatch deploy_logs (config gh own rep ref)"
  by (auto simp: config_def intro!: emits_intros split: sum.splits)

lemma emits_deployCommit:
  "emits is_dispatch deploy_logs (deployCommit gh own rep tgt ref sha pr)"
  by (auto simp: deployCommit_def Let_def in_deploy_logs
      intro!: emits_intros emits_config emits_deploy_loop split: option.splits)

lemma emits_mono:
  "emits P L m \<Longrightarrow> (\<And>c. P c \<Longrightarrow> P' c) \<Longrightarrow> L \<subseteq> L' \<Longrightarrow> emits P' L' m"
  unfolding emits_def by (meson subset_trans)

lemma emits_any_deployCommit:
  "emits (\<lambda>c. True) UNIV (deployCommit gh own rep tgt ref sha pr)"
  by (rule emits_mono [OF emits_deployCommit]) simp_all

lemma await_extends:
  assumes "\<And>x. emits P L (k x)"
  shows "\<exists>cs. trace (snd (await m k w)) = trace (snd (m w)) @ cs"
proof (cases "m w")
  case (Pair r w1)
  show ?thesis
  proof (cases r)
    case (Inl e)
    with Pair show ?thesis by (simp add: await_def)
  next
    case (Inr x)
    from assms [of x] obtain cs where "trace (snd (k x w1)) = trace w1 @ cs"
      unfolding emits_def by blast
    with Pair Inr show ?thesis by (simp add: await_def)
  qed
qed

lemma dispatch_no_getRef: "is_dispatch c \<Longrightarrow> \<not> is_getRef c"
  by (cases c) auto

lemma deployCommit_getRef:
  "filter is_getRef (requests (snd (deployCommit gh own rep tgt ref sha pr w)))
     = filter is_getRef (requests w)"
proof -
  from emits_deployCommit [of gh own rep tgt ref sha pr]
  obtain cs where "trace (snd (deployCommit gh own rep tgt ref sha pr w)) = trace w @ cs"
    "\<forall>c\<in>set cs. is_dispatch (fst c)"
    unfolding emits_def by blast
  then show ?thesis
    by (auto simp: requests_def filter_empty_conv dest: dispatch_no_getRef)
qed


section \<open>Properties of the auto-deploy evaluator\<close>

lemma replace_first_prefix: "replace_first pat (pat @ s) = s"
proof (cases pat)
  case Nil
  then show ?thesis by (cases s) (simp_all add: startsWith_def)
next
  case (Cons p ps)
  then show ?thesis by (simp add: startsWith_def)
qed



lemma replace_first_absent: "\<not> contains s pat \<Longrightarrow> replace_first pat s = s"
  by (induction s) auto

lemma replace_first_start: "startsWith s pat \<Longrightarrow> s \<noteq> [] \<Longrightarrow> replace_first pat s = drop (length pat) s"
  by (cases s) auto

lemma normalized_ref:
  assumes "a \<noteq> []" and "startsWith a ''refs/'' \<or> \<not> contains a ''refs/''"
  shows "replace_first ''refs/'' a = spec_strip_refs a"
proof (cases "startsWith a ''refs/''")
  case True
  with assms(1) show ?thesis by (simp add: spec_strip_refs_def replace_first_start)
next
  case False
  with assms(2) show ?thesis by (simp add: spec_strip_refs_def replace_first_absent)
qed

text \<open>Where \<open>refs/\<close> occurs after the start, the code removes it there and the two
  differ.\<close>

lemma replace_first_inner:
  "replace_first ''refs/'' ''heads/refs/x'' = ''heads/x''
   \<and> spec_strip_refs ''heads/refs/x'' = ''heads/refs/x''"
  by (simp add: startsWith_def spec_strip_refs_def)

lemma autoDeployTarget_first_request:
  assumes on: "auto_deploy_on tv = Some a" "a \<noteq> []"
  shows "\<exists>rest. trace (snd (autoDeployTarget gh ctx tgt tv w))
           = trace w
             @ (GetRef (owner ctx) (repo ctx) (replace_first ''refs/'' a),
                \<not> isl (getRef gh (trace w) (owner ctx) (repo ctx) (replace_first ''refs/'' a)))
             # rest"
proof -
  let ?nm = "replace_first ''refs/'' a"
  let ?w1 = "w\<lparr>logs := logs w @ [(Info, ''auto deploy: verifying'')]\<rparr>"
  let ?m = "request (GetRef (owner ctx) (repo ctx) ?nm)
              (\<lambda>h. getRef gh h (owner ctx) (repo ctx) ?nm)"
  let ?k = "\<lambda>sha. await (request (ListDeployments (owner ctx) (repo ctx) (Some sha) None None)
                    (\<lambda>h. listDeployments gh h (owner ctx) (repo ctx) (Some sha) None))
             (\<lambda>deploys.
           case deployments tv of
             None \<Rightarrow> throw (TypeError ''Cannot read property map of undefined'')
           | Some ds \<Rightarrow>
               (let environments = map environment ds in
                if find (\<lambda>d. Some (d_environment d) \<in> set environments) deploys \<noteq> None
                then log Info ''auto deploy: already deployed''
                else
                  await (log Info ''auto deploy: deploying'') (\<lambda>_.
                  try_catch
                    (await (deployCommit gh (owner ctx) (repo ctx) (Some tgt) ?nm sha None)
                       (\<lambda>_. log Info ''auto deploy: done''))
                    (\<lambda>err. log Err ''auto deploy: failed''))))"
  have run: "autoDeployTarget gh ctx tgt tv w = await ?m ?k ?w1"
    using on
    by (simp add: autoDeployTarget_def Let_def
        await_def [of "log Info ''auto deploy: verifying''"] log_def)
  have k: "emits (\<lambda>c. True) UNIV (?k sha)" for sha
    by (auto simp: Let_def intro!: emits_intros emits_any_deployCommit split: option.splits)
  from await_extends [of "\<lambda>c. True" UNIV ?k ?m ?w1, OF k]
  obtain cs where cs: "trace (snd (await ?m ?k ?w1)) = trace (snd (?m ?w1)) @ cs" by blast
  have "trace (snd (?m ?w1))
          = trace w @ [(GetRef (owner ctx) (repo ctx) ?nm,
                        \<not> isl (getRef gh (trace w) (owner ctx) (repo ctx) ?nm))]"
    by (simp add: request_def Let_def)
  with cs have "trace (snd (autoDeployTarget gh ctx tgt tv w))
                  = trace w @ (GetRef (owner ctx) (repo ctx) ?nm,
                               \<not> isl (getRef gh (trace w) (owner ctx) (repo ctx) ?nm)) # cs"
    unfolding run by simp
  then show ?thesis by blast
qed

text \<open>
  Claim C6, as the code has it. The three ref-state-changing events are handled by
  \<open>handleAutoDeploy\<close>, which never reads the event: whatever ref the event carries, the
  run is the same. For a target with a non-empty \<open>autoDeployOn\<close> that starts with \<open>refs/\<close>
  or in which \<open>refs/\<close> does not occur, the first request of its evaluation resolves the
  ref that \<open>autoDeployOn\<close> names with a \<open>refs/\<close> prefix stripped if present.
\<close>

theorem evaluator_ignores_event_ref:
  "commands gh (ctx\<lparr>event := Push r\<rparr>) w = handleAutoDeploy gh (ctx\<lparr>event := e\<rparr>) w
   \<and> commands gh (ctx\<lparr>event := Status s\<rparr>) w = handleAutoDeploy gh (ctx\<lparr>event := e\<rparr>) w
   \<and> commands gh (ctx\<lparr>event := Check_run c\<rparr>) w = handleAutoDeploy gh (ctx\<lparr>event := e\<rparr>) w
   \<and> (auto_deploy_on tv = Some a \<and> a \<noteq> []
        \<and> (startsWith a ''refs/'' \<or> \<not> contains a ''refs/'') \<longrightarrow>
        (\<exists>rest. trace (snd (autoDeployTarget gh ctx tgt tv w))
                  = trace w
                    @ (GetRef (owner ctx) (repo ctx) (spec_strip_refs a),
                       \<not> isl (getRef gh (trace w) (owner ctx) (repo ctx) (spec_strip_refs a)))
                    # rest))"
proof -
  have target: "autoDeployTarget gh (ctx\<lparr>event := e1\<rparr>) k t
                  = autoDeployTarget gh (ctx\<lparr>event := e2\<rparr>) k t"
    for e1 e2 k t
    by (simp add: autoDeployTarget_def cong: option.case_cong if_cong)
  have loop: "auto_deploy_loop gh (ctx\<lparr>event := e1\<rparr>) conf keys
                = auto_deploy_loop gh (ctx\<lparr>event := e2\<rparr>) conf keys" for e1 e2 conf keys
    by (induction keys) (simp_all add: target [of e1 _ _ e2] cong: option.case_cong)
  have handler: "handleAutoDeploy gh (ctx\<lparr>event := e1\<rparr>)
                   = handleAutoDeploy gh (ctx\<lparr>event := e2\<rparr>)"
    for e1 e2
    by (simp add: handleAutoDeploy_def loop [of e1 _ _ e2] cong: option.case_cong)
  have "commands gh (ctx\<lparr>event := Push r\<rparr>) w = handleAutoDeploy gh (ctx\<lparr>event := e\<rparr>) w"
    by (simp add: commands_def handler [of "Push r" e])
  moreover
  have "commands gh (ctx\<lparr>event := Status s\<rparr>) w = handleAutoDeploy gh (ctx\<lparr>event := e\<rparr>) w"
    by (simp add: commands_def handler [of "Status s" e])
  moreover
  have "commands gh (ctx\<lparr>event := Check_run c\<rparr>) w = handleAutoDeploy gh (ctx\<lparr>event := e\<rparr>) w"
    by (simp add: commands_def handler [of "Check_run c" e])
  moreover have "\<exists>rest. trace (snd (autoDeployTarget gh ctx tgt tv w))
                  = trace w
                    @ (GetRef (owner ctx) (repo ctx) (spec_strip_refs a),
                       \<not> isl (getRef gh (trace w) (owner ctx) (repo ctx) (spec_strip_refs a)))
                    # rest"
    if "auto_deploy_on tv = Some a" "a \<noteq> []"
       "startsWith a ''refs/'' \<or> \<not> contains a ''refs/''"
    using autoDeployTarget_first_request [OF that(1,2), of gh ctx tgt w]
      normalized_ref [OF that(2,3)] by simp
  ultimately show ?thesis by blast
qed

text \<open>A push to \<open>refs/heads/feature\<close> while the target deploys from \<open>refs/heads/main\<close>:
  the target is not skipped, its ref is resolved and both deployments are created.\<close>

theorem evaluator_ignores_event_ref_counterexample:
  "event pushed = Push ''refs/heads/feature''
   \<and> auto_deploy_on web = Some ''refs/heads/main''
   \<and> requests (snd (commands hub pushed w0))
     = [ContextConfig ''deploy.yml'',
        GetRef ''acme'' ''shop'' ''heads/main'',
        ListDeployments ''acme'' ''shop'' (Some ''c0ffee11'') None None,
        GetCommit ''acme'' ''shop'' ''c0ffee11'',
        GetContents ''acme'' ''shop'' ''heads/main'' ''.github/deploy.yml'',
        deploy_call hub ''acme'' ''shop'' ''heads/main''
          (web\<lparr>name := ''web''\<rparr>)
          \<lparr>p_ref = ''heads/main'', p_target = Some ''web'', p_owner = ''acme'',
             p_repo = ''shop'', p_short_sha = ''c0ffee1'', p_commit = JNull,
             p_pr = None, p_pull_request = None\<rparr> staging,
        deploy_call hub ''acme'' ''shop'' ''heads/main''
          (web\<lparr>name := ''web''\<rparr>)
          \<lparr>p_ref = ''heads/main'', p_target = Some ''web'', p_owner = ''acme'',
             p_repo = ''shop'', p_short_sha = ''c0ffee1'', p_commit = JNull,
             p_pr = None, p_pull_request = None\<rparr> production]"
  by (simp add: run_defs deploy_defs auto_defs site_defs pushed_def requests_def deploy_call_def)

text \<open>The same push, and the target with \<open>refs/heads/main\<close> and with \<open>heads/main\<close>.\<close>

theorem evaluator_ignores_event_ref_witness:
  "auto_deploy_on web = Some ''refs/heads/main'' \<and> startsWith ''refs/heads/main'' ''refs/''
   \<and> spec_strip_refs ''refs/heads/main'' = ''heads/main''
   \<and> \<not> contains ''heads/main'' ''refs/'' \<and> spec_strip_refs ''heads/main'' = ''heads/main''
   \<and> commands hub pushed w0 = handleAutoDeploy hub (pushed\<lparr>event := Push ''refs/heads/main''\<rparr>) w0
   \<and> (\<exists>rest. trace (snd (autoDeployTarget hub pushed ''web'' web w0))
               = trace w0 @ (GetRef ''acme'' ''shop'' ''heads/main'', True) # rest)
   \<and> (\<exists>rest. trace (snd (autoDeployTarget hub pushed ''web''
                             (web\<lparr>auto_deploy_on := Some ''heads/main''\<rparr>) w0))
               = trace w0 @ (GetRef ''acme'' ''shop'' ''heads/main'', True) # rest)"
proof -
  have h: "auto_deploy_on web = Some ''refs/heads/main''" by (simp add: web_def)
  have s: "startsWith ''refs/heads/main'' ''refs/''" by (simp add: startsWith_def)
  have n: "\<not> contains ''heads/main'' ''refs/''" by (simp add: startsWith_def)
  have p: "pushed = pushed\<lparr>event := Push ''refs/heads/feature''\<rparr>" by (simp add: pushed_def)
  note th1 = evaluator_ignores_event_ref [where gh = hub and ctx = pushed
      and r = "''refs/heads/feature''" and w = w0 and e = "Push ''refs/heads/main''"
      and tv = web and a = "''refs/heads/main''" and tgt = "''web''"]
  note th2 = evaluator_ignores_event_ref [where gh = hub and ctx = pushed
      and r = "''refs/heads/feature''" and w = w0 and e = "Push ''refs/heads/main''"
      and tv = "web\<lparr>auto_deploy_on := Some ''heads/main''\<rparr>" and a = "''heads/main''"
      and tgt = "''web''"]
  from th1 th2 h s n p show ?thesis
    by (simp add: hub_def pushed_def spec_strip_refs_def startsWith_def)
qed

subsection \<open>Failures while the targets are evaluated\<close>

lemma autoDeployTarget_dispatch:
  assumes on: "auto_deploy_on tv = Some a" "a \<noteq> []"
      and ref: "getRef gh (trace w) (owner ctx) (repo ctx) (replace_first ''refs/'' a) = Inr sha"
      and ls: "listDeployments gh
                 (trace w @ [(GetRef (owner ctx) (repo ctx) (replace_first ''refs/'' a), True)])
                 (owner ctx) (repo ctx) (Some sha) None = Inr deploys"
      and ds: "deployments tv = Some ds"
      and new: "\<forall>d\<in>set deploys. Some (d_environment d) \<notin> set (map environment ds)"
      and w1: "w1 = w\<lparr>trace := trace w
                    @ [(GetRef (owner ctx) (repo ctx) (replace_first ''refs/'' a), True),
                       (ListDeployments (owner ctx) (repo ctx) (Some sha) None None, True)],
                  logs := logs w @ [(Info, ''auto deploy: verifying''),
                                    (Info, ''auto deploy: deploying'')]\<rparr>"
  shows "autoDeployTarget gh ctx tgt tv w =
           (case deployCommit gh (owner ctx) (repo ctx) (Some tgt) (replace_first ''refs/'' a)
                   sha None w1 of
              (Inl e, w2) \<Rightarrow> (Inr (), w2\<lparr>logs := logs w2 @ [(Err, ''auto deploy: failed'')]\<rparr>)
            | (Inr x, w2) \<Rightarrow> (Inr (), w2\<lparr>logs := logs w2 @ [(Info, ''auto deploy: done'')]\<rparr>))"
proof -
  have "find (\<lambda>d. Some (d_environment d) \<in> set (map environment ds)) deploys = None"
    using new by (auto simp: find_None_iff)
  then show ?thesis
    using on ref ls ds w1
    by (simp add: autoDeployTarget_def await_def request_def log_def try_catch_def Let_def
        split: prod.splits sum.splits)
qed

lemma autoDeployTarget_ok:
  assumes refs: "\<forall>h own rep ref. \<not> isl (getRef gh h own rep ref)"
      and lists: "\<forall>h own rep sha ref. \<not> isl (listDeployments gh h own rep sha ref)"
      and deps: "deployments tv \<noteq> None"
  shows "fst (autoDeployTarget gh ctx tgt tv w) = Inr ()
       \<and> filter is_getRef (requests (snd (autoDeployTarget gh ctx tgt tv w)))
           = filter is_getRef (requests w) @ (if enabled tv then [resolve_call ctx tv] else [])"
proof (cases "enabled tv")
  case False
  then show ?thesis
    by (auto simp: enabled_def autoDeployTarget_def return_def split: option.splits)
next
  case True
  then obtain a where on: "auto_deploy_on tv = Some a" "a \<noteq> []"
    by (auto simp: enabled_def split: option.splits)
  let ?ref = "replace_first ''refs/'' a"
  from refs have "\<not> isl (getRef gh (trace w) (owner ctx) (repo ctx) ?ref)" by blast
  then obtain sha where ref: "getRef gh (trace w) (owner ctx) (repo ctx) ?ref = Inr sha"
    by (cases "getRef gh (trace w) (owner ctx) (repo ctx) ?ref") auto
  let ?h = "trace w @ [(GetRef (owner ctx) (repo ctx) ?ref, True)]"
  from lists have "\<not> isl (listDeployments gh ?h (owner ctx) (repo ctx) (Some sha) None)"
    by blast
  then obtain deploys
    where ls: "listDeployments gh ?h (owner ctx) (repo ctx) (Some sha) None = Inr deploys"
    by (cases "listDeployments gh ?h (owner ctx) (repo ctx) (Some sha) None") auto
  from deps obtain ds where ds: "deployments tv = Some ds" by auto
  define w1 where "w1 = w\<lparr>trace := trace w
                    @ [(GetRef (owner ctx) (repo ctx) ?ref, True),
                       (ListDeployments (owner ctx) (repo ctx) (Some sha) None None, True)],
                  logs := logs w @ [(Info, ''auto deploy: verifying''),
                                    (Info, ''auto deploy: deploying'')]\<rparr>"
  have rc: "resolve_call ctx tv = GetRef (owner ctx) (repo ctx) ?ref"
    using on by (simp add: resolve_call_def)
  show ?thesis
  proof (cases "\<forall>d\<in>set deploys. Some (d_environment d) \<notin> set (map environment ds)")
    case new: True
    note eq = autoDeployTarget_dispatch [OF on ref ls ds new w1_def, of tgt]
    obtain r w2 where run: "deployCommit gh (owner ctx) (repo ctx) (Some tgt) ?ref sha None w1
                              = (r, w2)"
      by (cases "deployCommit gh (owner ctx) (repo ctx) (Some tgt) ?ref sha None w1")
    have "filter is_getRef (requests w2) = filter is_getRef (requests w1)"
      using deployCommit_getRef [of gh "owner ctx" "repo ctx" "Some tgt" ?ref sha None w1] run
      by simp
    moreover have "filter is_getRef (requests w1)
                     = filter is_getRef (requests w) @ [GetRef (owner ctx) (repo ctx) ?ref]"
      by (simp add: w1_def requests_def)
    ultimately show ?thesis
      using eq run True rc by (cases r) (simp_all add: requests_def)
  next
    case False
    then have "find (\<lambda>d. Some (d_environment d) \<in> set (map environment ds)) deploys \<noteq> None"
      by (auto simp: find_None_iff)
    then show ?thesis
      using on ref ls ds True rc
      by (simp add: autoDeployTarget_def await_def request_def log_def Let_def requests_def)
  qed
qed

lemma auto_deploy_loop_ok:
  assumes refs: "\<forall>h own rep ref. \<not> isl (getRef gh h own rep ref)"
      and lists: "\<forall>h own rep sha ref. \<not> isl (listDeployments gh h own rep sha ref)"
      and keys: "\<forall>k\<in>set keys. \<exists>t. map_of conf k = Some t \<and> deployments t \<noteq> None"
  shows "fst (auto_deploy_loop gh ctx conf keys w) = Inr () \<and>
         filter is_getRef (requests (snd (auto_deploy_loop gh ctx conf keys w)))
           = filter is_getRef (requests w)
             @ map (resolve_call ctx) (filter enabled (map (\<lambda>k. the (map_of conf k)) keys))"
  using keys
proof (induction keys arbitrary: w)
  case Nil
  show ?case by (simp add: return_def)
next
  case (Cons k keys)
  then obtain t where t: "map_of conf k = Some t" "deployments t \<noteq> None" by auto
  note ok = autoDeployTarget_ok [OF refs lists t(2), of ctx k w]
  obtain w1 where one: "autoDeployTarget gh ctx k t w = (Inr (), w1)"
    using ok by (cases "autoDeployTarget gh ctx k t w") auto
  have g1: "filter is_getRef (requests w1)
              = filter is_getRef (requests w) @ (if enabled t then [resolve_call ctx t] else [])"
    using ok one by simp
  have rest: "auto_deploy_loop gh ctx conf (k # keys) w = auto_deploy_loop gh ctx conf keys w1"
    using t one by (simp add: await_def)
  from Cons.prems have "\<forall>k\<in>set keys. \<exists>t. map_of conf k = Some t \<and> deployments t \<noteq> None"
    by simp
  from Cons.IH [OF this, of w1] show ?case
    using rest g1 t by simp
qed

text \<open>
  Claim C9, as the code has it. The \<open>try\<close> of \<open>autoDeployTarget\<close> covers the call of
  the dispatcher only. When the configuration is read, every ref resolves, every
  listing succeeds and every target has its list of deployments, \<open>handleAutoDeploy\<close>
  returns normally and has resolved the ref of every auto-deploy target of the
  configuration, in the order of the loop, whatever the dispatcher did for each of them.
  For a target that is dispatched, a failure of the dispatcher is caught and
  \<open>auto deploy: failed\<close> is logged as the last entry of that target's evaluation.
\<close>

theorem dispatch_failure_contained:
  assumes cfg: "context_config gh (trace w) ''deploy.yml'' = Inr (Some conf)"
      and refs: "\<forall>h own rep ref. \<not> isl (getRef gh h own rep ref)"
      and lists: "\<forall>h own rep sha ref. \<not> isl (listDeployments gh h own rep sha ref)"
      and deps: "\<forall>t\<in>snd ` set conf. deployments t \<noteq> None"
  shows "fst (handleAutoDeploy gh ctx w) = Inr ()
       \<and> filter is_getRef (requests (snd (handleAutoDeploy gh ctx w)))
           = filter is_getRef (requests w)
             @ map (resolve_call ctx)
                 (filter enabled (map (\<lambda>k. the (map_of conf k)) (for_in conf)))
       \<and> (\<forall>tgt tv w1 a sha deploys ds.
             auto_deploy_on tv = Some a \<and> a \<noteq> []
             \<and> getRef gh (trace w1) (owner ctx) (repo ctx) (replace_first ''refs/'' a) = Inr sha
             \<and> listDeployments gh
                 (trace w1 @ [(GetRef (owner ctx) (repo ctx) (replace_first ''refs/'' a), True)])
                 (owner ctx) (repo ctx) (Some sha) None = Inr deploys
             \<and> deployments tv = Some ds
             \<and> (\<forall>d\<in>set deploys. Some (d_environment d) \<notin> set (map environment ds))
             \<longrightarrow>
             autoDeployTarget gh ctx tgt tv w1 =
               (case deployCommit gh (owner ctx) (repo ctx) (Some tgt)
                       (replace_first ''refs/'' a) sha None
                       (w1\<lparr>trace := trace w1
                              @ [(GetRef (owner ctx) (repo ctx) (replace_first ''refs/'' a), True),
                                 (ListDeployments (owner ctx) (repo ctx) (Some sha) None None,
                                  True)],
                            logs := logs w1 @ [(Info, ''auto deploy: verifying''),
                                               (Info, ''auto deploy: deploying'')]\<rparr>) of
                  (Inl e, w2) \<Rightarrow>
                    (Inr (), w2\<lparr>logs := logs w2 @ [(Err, ''auto deploy: failed'')]\<rparr>)
                | (Inr x, w2) \<Rightarrow>
                    (Inr (), w2\<lparr>logs := logs w2 @ [(Info, ''auto deploy: done'')]\<rparr>)))"
proof -
  let ?w1 = "w\<lparr>logs := logs w @ [(Info, ''auto deploy: checking deployments'')],
               trace := trace w @ [(ContextConfig ''deploy.yml'', True)]\<rparr>"
  have run: "handleAutoDeploy gh ctx w = auto_deploy_loop gh ctx conf (for_in conf) ?w1"
    using cfg by (simp add: handleAutoDeploy_def await_def log_def request_def)
  have keys: "\<forall>k\<in>set (for_in conf). \<exists>t. map_of conf k = Some t \<and> deployments t \<noteq> None"
  proof
    fix k assume "k \<in> set (for_in conf)"
    then obtain t where t: "map_of conf k = Some t"
      by (auto simp: for_in_def Let_def dest: weak_map_of_SomeI)
    then have "t \<in> snd ` set conf" by (auto dest: map_of_SomeD intro: rev_image_eqI)
    with deps t show "\<exists>t. map_of conf k = Some t \<and> deployments t \<noteq> None" by auto
  qed
  note loop = auto_deploy_loop_ok [OF refs lists keys, of ctx ?w1]
  have "filter is_getRef (requests ?w1) = filter is_getRef (requests w)"
    by (simp add: requests_def)
  with run loop have
    "fst (handleAutoDeploy gh ctx w) = Inr ()"
    "filter is_getRef (requests (snd (handleAutoDeploy gh ctx w)))
           = filter is_getRef (requests w)
             @ map (resolve_call ctx)
                 (filter enabled (map (\<lambda>k. the (map_of conf k)) (for_in conf)))"
    by simp_all
  moreover have "\<forall>tgt tv w1 a sha deploys ds.
             auto_deploy_on tv = Some a \<and> a \<noteq> []
             \<and> getRef gh (trace w1) (owner ctx) (repo ctx) (replace_first ''refs/'' a) = Inr sha
             \<and> listDeployments gh
                 (trace w1 @ [(GetRef (owner ctx) (repo ctx) (replace_first ''refs/'' a), True)])
                 (owner ctx) (repo ctx) (Some sha) None = Inr deploys
             \<and> deployments tv = Some ds
             \<and> (\<forall>d\<in>set deploys. Some (d_environment d) \<notin> set (map environment ds))
             \<longrightarrow>
             autoDeployTarget gh ctx tgt tv w1 =
               (case deployCommit gh (owner ctx) (repo ctx) (Some tgt)
                       (replace_first ''refs/'' a) sha None
                       (w1\<lparr>trace := trace w1
                              @ [(GetRef (owner ctx) (repo ctx) (replace_first ''refs/'' a), True),
                                 (ListDeployments (owner ctx) (repo ctx) (Some sha) None None,
                                  True)],
                            logs := logs w1 @ [(Info, ''auto deploy: verifying''),
                                               (Info, ''auto deploy: deploying'')]\<rparr>) of
                  (Inl e, w2) \<Rightarrow>
                    (Inr (), w2\<lparr>logs := logs w2 @ [(Err, ''auto deploy: failed'')]\<rparr>)
                | (Inr x, w2) \<Rightarrow>
                    (Inr (), w2\<lparr>logs := logs w2 @ [(Info, ''auto deploy: done'')]\<rparr>))"
    by (intro allI impI, elim conjE, rule autoDeployTarget_dispatch) simp_all
  ultimately show ?thesis by blast
qed

text \<open>The branch of the first target cannot be resolved: the error leaves the handler,
  and the second target, whose branch exists, is not evaluated.\<close>

theorem dispatch_failure_contained_counterexample:
  "context_config (hub\<lparr>context_config := two, getRef := missing\<rparr>) [] ''deploy.yml''
     = Inr (Some [(''api'', api), (''web'', web)])
   \<and> enabled web
   \<and> fst (commands (hub\<lparr>context_config := two, getRef := missing\<rparr>) pushed w0)
     = Inl (Error ''Not Found'')
   \<and> trace (snd (commands (hub\<lparr>context_config := two, getRef := missing\<rparr>) pushed w0))
     = [(ContextConfig ''deploy.yml'', True), (GetRef ''acme'' ''shop'' ''heads/release'', False)]"
  by (simp add: run_defs deploy_defs auto_defs site_defs pushed_def api_def two_def missing_def
      enabled_def)

text \<open>Both dispatches fail, the first because the configuration at the ref has no such
  target and the second on the production deployment: both targets are evaluated, each
  failure is logged and the handler returns.\<close>

theorem dispatch_failure_contained_witness:
  "context_config (hub\<lparr>context_config := two, createDeployment := conflict\<rparr>) (trace w0)
     ''deploy.yml'' = Inr (Some [(''api'', api), (''web'', web)])
   \<and> fst (handleAutoDeploy (hub\<lparr>context_config := two, createDeployment := conflict\<rparr>)
           pushed w0) = Inr ()
   \<and> filter is_getRef (requests (snd (handleAutoDeploy
         (hub\<lparr>context_config := two, createDeployment := conflict\<rparr>) pushed w0)))
     = [GetRef ''acme'' ''shop'' ''heads/release'', GetRef ''acme'' ''shop'' ''heads/main'']
   \<and> filter (\<lambda>l. fst l = Err) (logs (snd (handleAutoDeploy
         (hub\<lparr>context_config := two, createDeployment := conflict\<rparr>) pushed w0)))
     = [(Err, ''auto deploy: failed''), (Err, ''deploy: failed''), (Err, ''auto deploy: failed'')]"
proof -
  let ?gh = "hub\<lparr>context_config := two, createDeployment := conflict\<rparr>"
  have h1: "context_config ?gh (trace w0) ''deploy.yml''
              = Inr (Some [(''api'', api), (''web'', web)])"
    by (simp add: two_def)
  have h2: "\<forall>h own rep ref. \<not> isl (getRef ?gh h own rep ref)" by (simp add: hub_def)
  have h3: "\<forall>h own rep sha ref. \<not> isl (listDeployments ?gh h own rep sha ref)"
    by (simp add: hub_def)
  have h4: "\<forall>t\<in>snd ` set [(''api'', api), (''web'', web)]. deployments t \<noteq> None"
    by (simp add: api_def web_def)
  note th = dispatch_failure_contained [OF h1 h2 h3 h4, of pushed]
  have g: "map (resolve_call pushed)
             (filter enabled (map (\<lambda>k. the (map_of [(''api'', api), (''web'', web)] k))
                (for_in [(''api'', api), (''web'', web)])))
           = [GetRef ''acme'' ''shop'' ''heads/release'', GetRef ''acme'' ''shop'' ''heads/main'']"
    by (simp add: for_in_def array_index_def is_digit_def enabled_def api_def web_def
        resolve_call_def pushed_def startsWith_def)
  have l: "filter (\<lambda>l. fst l = Err) (logs (snd (handleAutoDeploy ?gh pushed w0)))
     = [(Err, ''auto deploy: failed''), (Err, ''deploy: failed''), (Err, ''auto deploy: failed'')]"
    by (simp add: run_defs deploy_defs auto_defs site_defs pushed_def api_def two_def
        conflict_def)
  from th g l h1 show ?thesis by (simp add: requests_def w0_def)
qed


section \<open>Properties of the command handler\<close>

text \<open>
  Claim C8, as the code has it. For a comment that starts with \<open>/deploy\<close> by a user for
  whom the permission check answers false, no deployment is created. The pull request
  is fetched before the permission is checked. When it is found, the handler returns
  normally after these two requests: it has added two log entries and posted no
  comment. When fetching it fails, the permission is not checked and the failure is
  posted as a comment.
\<close>

theorem no_write_no_effect:
  assumes ev: "event ctx = Issue_comment_created number user body"
      and cmd: "startsWith body ''/deploy''"
      and no: "canWrite gh (trace w @ [(PullsGet (owner ctx) (repo ctx) number, True)])
                 (owner ctx) (repo ctx) user = Inr False"
  shows "filter is_create (requests (snd (commands gh ctx w))) = filter is_create (requests w)
       \<and> (\<forall>pr. pulls_get gh (trace w) (owner ctx) (repo ctx) number = Inr pr \<longrightarrow>
            commands gh ctx w =
              (Inr (), w\<lparr>trace := trace w
                            @ [(PullsGet (owner ctx) (repo ctx) number, True),
                               (CanWrite (owner ctx) (repo ctx) user, True)],
                          logs := logs w @ [(Info, ''pr deploy: handling command''),
                                            (Info, ''pr deploy: no write priviledges'')]\<rparr>))
       \<and> (\<forall>err. pulls_get gh (trace w) (owner ctx) (repo ctx) number = Inl err \<longrightarrow>
            requests (snd (commands gh ctx w))
              = requests w
                @ [PullsGet (owner ctx) (repo ctx) number,
                   CreateComment (owner ctx) (repo ctx) number (failure_comment err)]
          \<and> logs (snd (commands gh ctx w))
              = logs w @ [(Info, ''pr deploy: handling command'')])"
proof -
  have run: "commands gh ctx w = handlePRDeploy gh ctx body w"
    using ev cmd by (simp add: commands_def)
  have "filter is_create (requests (snd (handlePRDeploy gh ctx body w)))
          = filter is_create (requests w)"
    using ev no
    by (cases "pulls_get gh (trace w) (owner ctx) (repo ctx) number")
       (simp_all add: handlePRDeploy_def await_def request_def log_def try_catch_def Let_def
          requests_def)
  moreover have "handlePRDeploy gh ctx body w =
              (Inr (), w\<lparr>trace := trace w
                            @ [(PullsGet (owner ctx) (repo ctx) number, True),
                               (CanWrite (owner ctx) (repo ctx) user, True)],
                          logs := logs w @ [(Info, ''pr deploy: handling command''),
                                            (Info, ''pr deploy: no write priviledges'')]\<rparr>)"
    if "pulls_get gh (trace w) (owner ctx) (repo ctx) number = Inr pr" for pr
    using ev no that
    by (simp add: handlePRDeploy_def await_def request_def log_def try_catch_def Let_def)
  moreover have "requests (snd (handlePRDeploy gh ctx body w))
              = requests w
                @ [PullsGet (owner ctx) (repo ctx) number,
                   CreateComment (owner ctx) (repo ctx) number (failure_comment err)]
          \<and> logs (snd (handlePRDeploy gh ctx body w))
              = logs w @ [(Info, ''pr deploy: handling command'')]"
    if "pulls_get gh (trace w) (owner ctx) (repo ctx) number = Inl err" for err
    using ev that
    by (simp add: handlePRDeploy_def await_def request_def log_def try_catch_def Let_def
        requests_def)
  ultimately show ?thesis unfolding run by blast
qed

text \<open>The comment \<open>/deploy web\<close> on an issue that is not a pull request, by a user
  without write permission: a comment is posted.\<close>

theorem no_write_no_effect_counterexample:
  "event (commented ''/deploy web'') = Issue_comment_created 7 ''octocat'' ''/deploy web''
   \<and> startsWith ''/deploy web'' ''/deploy''
   \<and> canWrite (hub\<lparr>canWrite := denied, pulls_get := not_found\<rparr>)
         [(PullsGet ''acme'' ''shop'' 7, False)] ''acme'' ''shop'' ''octocat'' = Inr False
   \<and> requests (snd (commands (hub\<lparr>canWrite := denied, pulls_get := not_found\<rparr>)
                       (commented ''/deploy web'') w0))
     = [PullsGet ''acme'' ''shop'' 7,
        CreateComment ''acme'' ''shop'' 7
          ('':rotating_light: Failed to trigger deployment. :rotating_light:'' @ [CHR 0x0A]
           @ ''Not Found'')]"
  by (simp add: run_defs commands_def startsWith_def handlePRDeploy_def hub_def w0_def
      commented_def requests_def failure_comment_def denied_def not_found_def)

text \<open>The comment \<open>/deploy web\<close> by a user without write permission, with the pull
  request found and not found.\<close>

theorem no_write_no_effect_witness:
  "event (commented ''/deploy web'') = Issue_comment_created 7 ''octocat'' ''/deploy web''
   \<and> startsWith ''/deploy web'' ''/deploy''
   \<and> canWrite (hub\<lparr>canWrite := denied\<rparr>) [(PullsGet ''acme'' ''shop'' 7, True)]
         ''acme'' ''shop'' ''octocat'' = Inr False
   \<and> commands (hub\<lparr>canWrite := denied\<rparr>) (commented ''/deploy web'') w0
     = (Inr (), \<lparr>trace = [(PullsGet ''acme'' ''shop'' 7, True),
                          (CanWrite ''acme'' ''shop'' ''octocat'', True)],
                 logs = [(Info, ''pr deploy: handling command''),
                         (Info, ''pr deploy: no write priviledges'')]\<rparr>)
   \<and> requests (snd (commands (hub\<lparr>canWrite := denied, pulls_get := not_found\<rparr>)
                       (commented ''/deploy web'') w0))
     = [PullsGet ''acme'' ''shop'' 7,
        CreateComment ''acme'' ''shop'' 7 (failure_comment (Error ''Not Found''))]"
proof -
  let ?gh = "hub\<lparr>canWrite := denied\<rparr>"
  let ?gh' = "hub\<lparr>canWrite := denied, pulls_get := not_found\<rparr>"
  let ?ctx = "commented ''/deploy web''"
  have h1: "event ?ctx = Issue_comment_created 7 ''octocat'' ''/deploy web''"
    by (simp add: commented_def)
  have h2: "startsWith ''/deploy web'' ''/deploy''" by (simp add: startsWith_def)
  have h3: "pulls_get ?gh (trace w0) (owner ?ctx) (repo ?ctx) 7
              = Inr \<lparr>pr_number = 7, head_ref = ''feature'', head_sha = ''c0ffee11''\<rparr>"
    by (simp add: hub_def)
  have h3': "pulls_get ?gh' (trace w0) (owner ?ctx) (repo ?ctx) 7 = Inl (Error ''Not Found'')"
    by (simp add: not_found_def)
  have h4: "canWrite ?gh (trace w0 @ [(PullsGet (owner ?ctx) (repo ?ctx) 7, True)])
              (owner ?ctx) (repo ?ctx) ''octocat'' = Inr False"
    by (simp add: denied_def)
  have h4': "canWrite ?gh' (trace w0 @ [(PullsGet (owner ?ctx) (repo ?ctx) 7, True)])
              (owner ?ctx) (repo ?ctx) ''octocat'' = Inr False"
    by (simp add: denied_def)
  from no_write_no_effect [OF h1 h2 h4] h3
  have a: "commands ?gh ?ctx w0
     = (Inr (), \<lparr>trace = [(PullsGet ''acme'' ''shop'' 7, True),
                          (CanWrite ''acme'' ''shop'' ''octocat'', True)],
                 logs = [(Info, ''pr deploy: handling command''),
                         (Info, ''pr deploy: no write priviledges'')]\<rparr>)"
    by (simp add: commented_def w0_def)
  from no_write_no_effect [OF h1 h2 h4'] h3'
  have b: "requests (snd (commands ?gh' ?ctx w0))
     = [PullsGet ''acme'' ''shop'' 7,
        CreateComment ''acme'' ''shop'' 7 (failure_comment (Error ''Not Found''))]"
    by (simp add: commented_def w0_def requests_def)
  from a b h1 h2 h4 show ?thesis by (simp add: commented_def w0_def)
qed

text \<open>When a comment that starts with \<open>/deploy\<close> has fewer than two tokens, its second
  piece at a single space, if there is one, is made of white space only.\<close>

lemma pieces_not_Nil: "pieces sep s \<noteq> []"
  by (induction s) (auto split: list.splits)

lemma split_not_Nil: "split sep s \<noteq> []"
  by (induction s) (auto split: list.splits)

lemma pieces_all_empty:
  "filter (\<lambda>t. t \<noteq> []) (pieces sep s) = [] \<Longrightarrow> list_all sep s"
proof (induction s)
  case Nil
  then show ?case by simp
next
  case (Cons c cs)
  show ?case
  proof (cases "sep c")
    case True
    with Cons show ?thesis by simp
  next
    case False
    obtain t ts where "pieces sep cs = t # ts"
      using pieces_not_Nil [of sep cs] by (cases "pieces sep cs") auto
    with False Cons.prems show ?thesis by simp
  qed
qed

lemma pieces_rest_empty:
  "filter (\<lambda>t. t \<noteq> []) (tl (pieces sep s)) = []
     \<Longrightarrow> list_all sep (dropWhile (\<lambda>c. \<not> sep c) s)"
proof (induction s)
  case Nil
  then show ?case by simp
next
  case (Cons c cs)
  show ?case
  proof (cases "sep c")
    case True
    with Cons.prems have "list_all sep cs" by (simp add: pieces_all_empty)
    with True show ?thesis by simp
  next
    case False
    obtain t ts where "pieces sep cs = t # ts"
      using pieces_not_Nil [of sep cs] by (cases "pieces sep cs") auto
    with False Cons show ?thesis by simp
  qed
qed

lemma split_blank:
  "list_all is_space s \<Longrightarrow> list_all (list_all is_space) (split CHR '' '' s)"
proof (induction s)
  case Nil
  then show ?case by simp
next
  case (Cons c cs)
  obtain t ts where "split CHR '' '' cs = t # ts"
    using split_not_Nil [of "CHR '' ''" cs] by (cases "split CHR '' '' cs") auto
  with Cons show ?case by simp
qed

lemma split_rest_blank:
  "list_all is_space (dropWhile (\<lambda>c. \<not> is_space c) s)
     \<Longrightarrow> list_all (list_all is_space) (tl (split CHR '' '' s))"
proof (induction s)
  case Nil
  then show ?case by simp
next
  case (Cons c cs)
  show ?case
  proof (cases "is_space c")
    case True
    with Cons.prems have "list_all is_space (c # cs)" by simp
    from split_blank [OF this] show ?thesis
      by (cases "split CHR '' '' (c # cs)") simp_all
  next
    case False
    then have ne: "c \<noteq> CHR '' ''" by (auto simp: is_space_def)
    obtain t ts where "split CHR '' '' cs = t # ts"
      using split_not_Nil [of "CHR '' ''" cs] by (cases "split CHR '' '' cs") auto
    with False ne Cons show ?thesis by simp
  qed
qed

lemma bare_target:
  assumes cmd: "startsWith body ''/deploy''"
      and bare: "length (spec_tokens body) < 2"
  shows "index (split CHR '' '' body) 1 = None
       \<or> (\<exists>t. index (split CHR '' '' body) 1 = Some t \<and> list_all is_space t)"
proof -
  from cmd obtain cs where body: "body = CHR ''/'' # cs"
    by (cases body) (auto simp: startsWith_def)
  have slash: "\<not> is_space CHR ''/''" by (simp add: is_space_def)
  obtain t ts where p: "pieces is_space cs = t # ts"
    using pieces_not_Nil [of is_space cs] by (cases "pieces is_space cs") auto
  from bare have "filter (\<lambda>t. t \<noteq> []) (tl (pieces is_space body)) = []"
    by (simp add: spec_tokens_def body slash p)
  from split_rest_blank [OF pieces_rest_empty [OF this]]
  have blank: "list_all (list_all is_space) (tl (split CHR '' '' body))" .
  show ?thesis
  proof (cases "1 < length (split CHR '' '' body)")
    case False
    then show ?thesis by (simp add: index_def)
  next
    case True
    then have "split CHR '' '' body ! 1 \<in> set (tl (split CHR '' '' body))"
      by (cases "split CHR '' '' body") auto
    with blank have "list_all is_space (split CHR '' '' body ! 1)"
      by (simp add: list_all_iff)
    with True show ?thesis by (simp add: index_def)
  qed
qed

text \<open>
  Claim C7, as the code has it. A comment that starts with \<open>/deploy\<close> and has no second
  token is dispatched all the same: the target is undefined, or the white space between
  the first space and the next one. While no configuration has a target named
  \<open>undefined\<close> or made of white space only, no deployment is created, but the handler is
  not silent. When the pull request is found, the commenter may write and the commit
  and the configuration are fetched, the error of the dispatcher is posted as a comment.
\<close>

theorem bare_command_is_dispatched:
  assumes ev: "event ctx = Issue_comment_created number user body"
      and cmd: "startsWith body ''/deploy''"
      and bare: "length (spec_tokens body) < 2"
      and none: "\<forall>content conf. parse gh content = Inr conf \<longrightarrow>
                   (\<forall>key\<in>fst ` set conf. key \<noteq> ''undefined'' \<and> \<not> list_all is_space key)"
  shows "(index (split CHR '' '' body) 1 = None
          \<or> (\<exists>t. index (split CHR '' '' body) 1 = Some t \<and> list_all is_space t))
       \<and> filter is_create (requests (snd (commands gh ctx w))) = filter is_create (requests w)
       \<and> (\<forall>pr commit content conf.
            pulls_get gh (trace w) (owner ctx) (repo ctx) number = Inr pr
          \<and> canWrite gh (trace w @ [(PullsGet (owner ctx) (repo ctx) number, True)])
               (owner ctx) (repo ctx) user = Inr True
          \<and> getCommit gh (trace w @ [(PullsGet (owner ctx) (repo ctx) number, True),
                                    (CanWrite (owner ctx) (repo ctx) user, True)])
               (owner ctx) (repo ctx) (head_sha pr) = Inr commit
          \<and> getContents gh (trace w @ [(PullsGet (owner ctx) (repo ctx) number, True),
                                      (CanWrite (owner ctx) (repo ctx) user, True),
                                      (GetCommit (owner ctx) (repo ctx) (head_sha pr), True)])
               (owner ctx) (repo ctx) (head_ref pr) config_path = Inr content
          \<and> parse gh content = Inr conf
          \<longrightarrow> requests (snd (commands gh ctx w))
                = requests w
                  @ [PullsGet (owner ctx) (repo ctx) number,
                     CanWrite (owner ctx) (repo ctx) user,
                     GetCommit (owner ctx) (repo ctx) (head_sha pr),
                     GetContents (owner ctx) (repo ctx) (head_ref pr) config_path,
                     CreateComment (owner ctx) (repo ctx) number
                       (failure_comment (no_target (index (split CHR '' '' body) 1)))])"
proof -
  let ?tgt = "index (split CHR '' '' body) 1"
  have run: "commands gh ctx w = handlePRDeploy gh ctx body w"
    using ev cmd by (simp add: commands_def)
  note tgt = bare_target [OF cmd bare]
  have key: "js_string ?tgt = ''undefined'' \<or> list_all is_space (js_string ?tgt)"
    using tgt by auto
  have absent: "map_of (map (\<lambda>(key, t). (key, t\<lparr>name := key,
                     deployments := Some (or_list (deployments t) [])\<rparr>)) conf) (js_string ?tgt)
                  = None" if "parse gh content = Inr conf" for content conf
  proof -
    from none that have "\<forall>key\<in>fst ` set conf. key \<noteq> ''undefined'' \<and> \<not> list_all is_space key"
      by blast
    with key have "js_string ?tgt \<notin> fst ` set conf" by blast
    then have "map_of conf (js_string ?tgt) = None" by (simp add: map_of_eq_None_iff)
    then show ?thesis by (simp add: map_of_map_entry)
  qed
  have "filter is_create (requests (snd (handlePRDeploy gh ctx body w)))
          = filter is_create (requests w)"
    using ev absent
    by (simp add: handlePRDeploy_def deployCommit_def config_def await_def request_def log_def
        try_catch_def throw_def return_def Let_def requests_def
        split: sum.splits option.splits)
  moreover have "requests (snd (handlePRDeploy gh ctx body w))
                = requests w
                  @ [PullsGet (owner ctx) (repo ctx) number,
                     CanWrite (owner ctx) (repo ctx) user,
                     GetCommit (owner ctx) (repo ctx) (head_sha pr),
                     GetContents (owner ctx) (repo ctx) (head_ref pr) config_path,
                     CreateComment (owner ctx) (repo ctx) number
                       (failure_comment (no_target ?tgt))]"
    if "pulls_get gh (trace w) (owner ctx) (repo ctx) number = Inr pr"
       "canWrite gh (trace w @ [(PullsGet (owner ctx) (repo ctx) number, True)])
               (owner ctx) (repo ctx) user = Inr True"
       "getCommit gh (trace w @ [(PullsGet (owner ctx) (repo ctx) number, True),
                                    (CanWrite (owner ctx) (repo ctx) user, True)])
               (owner ctx) (repo ctx) (head_sha pr) = Inr commit"
       "getContents gh (trace w @ [(PullsGet (owner ctx) (repo ctx) number, True),
                                      (CanWrite (owner ctx) (repo ctx) user, True),
                                      (GetCommit (owner ctx) (repo ctx) (head_sha pr), True)])
               (owner ctx) (repo ctx) (head_ref pr) config_path = Inr content"
       "parse gh content = Inr conf" for pr commit content conf
    using ev absent [OF that(5)] that
    by (simp add: handlePRDeploy_def deployCommit_def config_def await_def request_def log_def
        try_catch_def throw_def return_def Let_def requests_def)
  ultimately show ?thesis unfolding run using tgt by blast
qed

text \<open>The comments \<open>/deploy\<close> and \<open>/deploy\<close> followed by a space, by a user with write
  permission: a comment is posted for each. With a target named \<open>undefined\<close> in the
  configuration, the comment \<open>/deploy\<close> creates the deployments of that target.\<close>

theorem bare_command_is_dispatched_counterexample:
  "startsWith ''/deploy'' ''/deploy'' \<and> spec_tokens ''/deploy'' = [''/deploy'']
   \<and> filter is_comment (requests (snd (commands hub (commented ''/deploy'') w0)))
     = [CreateComment ''acme'' ''shop'' 7
          ('':rotating_light: Failed to trigger deployment. :rotating_light:'' @ [CHR 0x0A]
           @ ''Deployment target '' @ [CHR 0x22] @ ''undefined'' @ [CHR 0x22]
           @ '' does not exist'')]
   \<and> startsWith ''/deploy '' ''/deploy'' \<and> spec_tokens ''/deploy '' = [''/deploy'']
   \<and> filter is_comment (requests (snd (commands hub (commented ''/deploy '') w0)))
     = [CreateComment ''acme'' ''shop'' 7
          ('':rotating_light: Failed to trigger deployment. :rotating_light:'' @ [CHR 0x0A]
           @ ''Deployment target '' @ [CHR 0x22] @ [CHR 0x22] @ '' does not exist'')]
   \<and> filter is_create
        (requests (snd (commands (hub\<lparr>parse := undefined_target\<rparr>) (commented ''/deploy'') w0)))
     = [deploy_call (hub\<lparr>parse := undefined_target\<rparr>) ''acme'' ''shop'' ''feature''
          (web\<lparr>name := ''undefined''\<rparr>)
          \<lparr>p_ref = ''feature'', p_target = None, p_owner = ''acme'',
             p_repo = ''shop'', p_short_sha = ''c0ffee1'', p_commit = JNull,
             p_pr = Some 7,
             p_pull_request = Some \<lparr>pr_number = 7, head_ref = ''feature'',
                                     head_sha = ''c0ffee11''\<rparr>\<rparr> staging,
        deploy_call (hub\<lparr>parse := undefined_target\<rparr>) ''acme'' ''shop'' ''feature''
          (web\<lparr>name := ''undefined''\<rparr>)
          \<lparr>p_ref = ''feature'', p_target = None, p_owner = ''acme'',
             p_repo = ''shop'', p_short_sha = ''c0ffee1'', p_commit = JNull,
             p_pr = Some 7,
             p_pull_request = Some \<lparr>pr_number = 7, head_ref = ''feature'',
                                     head_sha = ''c0ffee11''\<rparr>\<rparr> production]"
  by (simp add: run_defs deploy_defs auto_defs site_defs commented_def requests_def
      handlePRDeploy_def index_def failure_comment_def spec_tokens_def is_space_def
      undefined_target_def deploy_call_def)

text \<open>The comment \<open>/deploy\<close> followed by a space, request by request.\<close>

theorem bare_command_is_dispatched_witness:
  "event (commented ''/deploy '') = Issue_comment_created 7 ''octocat'' ''/deploy ''
   \<and> startsWith ''/deploy '' ''/deploy''
   \<and> length (spec_tokens ''/deploy '') < 2
   \<and> list_all (\<lambda>key. key \<noteq> ''undefined'' \<and> \<not> list_all is_space key)
         (map fst [(''web'', web)])
   \<and> index (split CHR '' '' ''/deploy '') 1 = Some []
   \<and> filter is_create (requests (snd (commands hub (commented ''/deploy '') w0))) = []
   \<and> requests (snd (commands hub (commented ''/deploy '') w0))
     = [PullsGet ''acme'' ''shop'' 7,
        CanWrite ''acme'' ''shop'' ''octocat'',
        GetCommit ''acme'' ''shop'' ''c0ffee11'',
        GetContents ''acme'' ''shop'' ''feature'' config_path,
        CreateComment ''acme'' ''shop'' 7 (failure_comment (no_target (Some [])))]"
proof -
  have h1: "event (commented ''/deploy '') = Issue_comment_created 7 ''octocat'' ''/deploy ''"
    by (simp add: commented_def)
  have h2: "startsWith ''/deploy '' ''/deploy''" by (simp add: startsWith_def)
  have h3: "length (spec_tokens ''/deploy '') < 2" by (simp add: spec_tokens_def is_space_def)
  have k: "list_all (\<lambda>key. key \<noteq> ''undefined'' \<and> \<not> list_all is_space key)
             (map fst [(''web'', web)])"
    by (simp add: is_space_def)
  have h4: "\<forall>content conf. parse hub content = Inr conf \<longrightarrow>
              (\<forall>key\<in>fst ` set conf. key \<noteq> ''undefined'' \<and> \<not> list_all is_space key)"
    by (auto simp: hub_def is_space_def)
  have i: "index (split CHR '' '' ''/deploy '') 1 = Some []" by (simp add: index_def)
  note th = bare_command_is_dispatched [OF h1 h2 h3 h4, of w0]
  have a: "filter is_create (requests (snd (commands hub (commented ''/deploy '') w0))) = []"
    using th by (simp add: w0_def requests_def)
  have b: "requests (snd (commands hub (commented ''/deploy '') w0))
     = [PullsGet ''acme'' ''shop'' 7,
        CanWrite ''acme'' ''shop'' ''octocat'',
        GetCommit ''acme'' ''shop'' ''c0ffee11'',
        GetContents ''acme'' ''shop'' ''feature'' config_path,
        CreateComment ''acme'' ''shop'' 7 (failure_comment (no_target (Some [])))]"
    using th i
    by (simp add: hub_def commented_def w0_def requests_def)
  from h1 h2 h3 k i a b show ?thesis by simp
qed

section \<open>The lock store serializes the calls of a key\<close>

lemma calls_append: "calls k (es @ es') = calls k es @ calls k es'"
  by (induction k es rule: calls.induct) auto

lemma started_append: "started k (xs @ ys) = started k xs @ started k ys"
  by (induction k xs rule: started.induct) auto

lemma finished_append: "finished k (xs @ ys) = finished k xs @ finished k ys"
  by (induction k xs rule: finished.induct) auto

lemma lock_run_snoc: "lock_run (es @ [e]) = lock_step (lock_run es) e"
  by (simp add: lock_run_def)

lemma serial_snoc_started:
  "serial xs \<Longrightarrow> xs = [] \<or> (\<exists>f out. last xs = Finished k f out) \<Longrightarrow> serial (xs @ [Started k g])"
  by (induction xs rule: serial.induct) (auto split: if_splits)

lemma serial_snoc_finished:
  "serial xs \<Longrightarrow> xs \<noteq> [] \<Longrightarrow> last xs = Started k f \<Longrightarrow> serial (xs @ [Finished k' f out])"
  by (induction xs rule: serial.induct) (auto split: if_splits)

lemma serial_snoc_handover:
  "serial xs \<Longrightarrow> xs \<noteq> [] \<Longrightarrow> last xs = Started k f
     \<Longrightarrow> serial (xs @ [Finished k' f out, Started k'' g])"
  by (induction xs rule: serial.induct) (auto split: if_splits)

lemma key_inv_run: "key_inv k es (lock_run es)"
proof (induction es rule: rev_induct)
  case Nil
  show ?case by (simp add: key_inv_def lock_run_def InMemStore_def)
next
  case (snoc e es)
  let ?s = "lock_run es"
  show ?case
  proof (cases e)
    case (Call k' f)
    show ?thesis
    proof (cases "k' = k")
      case True
      with snoc Call show ?thesis
        by (auto simp: lock_run_snoc key_inv_def acquire_def Let_def calls_append started_append
            finished_append serial_snoc_started split: option.splits)
    next
      case False
      with snoc Call show ?thesis
        by (auto simp: lock_run_snoc key_inv_def acquire_def Let_def calls_append started_append
            finished_append split: option.splits)
    qed
  next
    case (Settle k' out)
    show ?thesis
    proof (cases "k' = k")
      case True
      with snoc Settle show ?thesis
        by (auto simp: lock_run_snoc key_inv_def release_def Let_def calls_append started_append
            finished_append serial_snoc_started serial_snoc_finished serial_snoc_handover
            split: option.splits list.splits)
    next
      case False
      with snoc Settle show ?thesis
        by (auto simp: lock_run_snoc key_inv_def release_def Let_def calls_append started_append
            finished_append split: option.splits list.splits)
    qed
  qed
qed

lemma lock_run_append: "lock_run (es @ es') = foldl lock_step (lock_run es) es'"
  by (simp add: lock_run_def)

lemma key_view_other:
  assumes "event_key e \<noteq> k"
  shows "key_view k (lock_step s e) = key_view k s"
proof (cases e)
  case (Call k' f)
  with assms have "k' \<noteq> k" by simp
  then show ?thesis
    using Call
    by (cases "holder (locks s k')") (simp_all add: key_view_def acquire_def Let_def)
next
  case (Settle k' out)
  with assms have "k' \<noteq> k" by simp
  then show ?thesis
    using Settle
    by (cases "holder (locks s k')"; cases "queue (locks s k')")
       (simp_all add: key_view_def release_def Let_def)
qed

lemma key_view_step:
  assumes "event_key e = k"
  shows "key_view k (lock_step s e) = view_step k (key_view k s) e"
proof (cases e)
  case (Call k' f)
  with assms have "k' = k" by simp
  then show ?thesis
    using Call
    by (cases "holder (locks s k)") (simp_all add: key_view_def acquire_def Let_def)
next
  case (Settle k' out)
  with assms have "k' = k" by simp
  then show ?thesis
    using Settle
    by (cases "holder (locks s k)"; cases "queue (locks s k)")
       (simp_all add: key_view_def release_def Let_def)
qed

lemma key_view_filter:
  "key_view k (lock_run es) = key_view k (lock_run (filter (\<lambda>e. event_key e = k) es))"
proof (induction es rule: rev_induct)
  case Nil
  show ?case by simp
next
  case (snoc e es)
  show ?case
  proof (cases "event_key e = k")
    case True
    with snoc show ?thesis by (simp add: lock_run_snoc key_view_step)
  next
    case False
    with snoc show ?thesis by (simp add: lock_run_snoc key_view_other)
  qed
qed

lemma forget_run:
  "lock_run (map resolve es) = (lock_run es)\<lparr>executions := map forget (executions (lock_run es))\<rparr>"
proof (induction es rule: rev_induct)
  case Nil
  show ?case by (simp add: lock_run_def InMemStore_def)
next
  case (snoc e es)
  show ?case
    by (cases e)
       (simp_all add: lock_run_snoc snoc acquire_def release_def Let_def
          split: option.splits list.splits)
qed

lemma pending_release: "pending k (release k out s) = pending k s - 1"
  by (simp add: pending_def release_def Let_def split: option.splits list.splits)

lemma pending_settles:
  "pending k (foldl lock_step s (map (Settle k) outs)) = pending k s - length outs"
  by (induction outs arbitrary: s) (simp_all add: pending_release)

lemma pending_le_calls: "pending k (lock_run es) \<le> length (calls k es)"
proof (cases "holder (locks (lock_run es) k)")
  case None
  then show ?thesis by (simp add: pending_def)
next
  case (Some f)
  with key_inv_run [of k es]
  have "finished k (executions (lock_run es)) @ [f] @ queue (locks (lock_run es) k) = calls k es"
    by (auto simp: key_inv_def Let_def)
  then have "length (calls k es)
               = length (finished k (executions (lock_run es)))
                 + Suc (length (queue (locks (lock_run es) k)))"
    by (metis length_append length_Cons list.size(3) append_Cons append_Nil)
  with Some show ?thesis by (simp add: pending_def)
qed

lemma calls_settles: "calls k (map (Settle k') outs) = []"
  by (induction outs) auto

text \<open>
  Claim C5. For every schedule of calls and settlings and every key: the critical
  sections of the key do not overlap, each finishes before the next starts; they start
  in the order of the calls, those not yet started wait in the queue in that order; a
  section starts only when the one before it has finished; when as many sections have
  settled as calls were made, each call has been executed exactly once, in the order
  of the calls; turning every rejection into a resolution changes nothing but the
  recorded outcomes, so a failure releases the lock as a success does; and what happens
  under a key is the same as if the events of the other keys were not there.
\<close>

theorem lock_serializes:
  "serial (filter (\<lambda>x. execution_key x = k) (executions (lock_run es)))
   \<and> started k (executions (lock_run es)) @ queue (locks (lock_run es) k) = calls k es
   \<and> (case holder (locks (lock_run es) k) of
         None \<Rightarrow> finished k (executions (lock_run es)) = calls k es
       | Some f \<Rightarrow> started k (executions (lock_run es))
                    = finished k (executions (lock_run es)) @ [f])
   \<and> (length outs = length (calls k es) \<longrightarrow>
        finished k (executions (lock_run (es @ map (Settle k) outs))) = calls k es)
   \<and> lock_run (map resolve es)
       = (lock_run es)\<lparr>executions := map forget (executions (lock_run es))\<rparr>
   \<and> key_view k (lock_run es) = key_view k (lock_run (filter (\<lambda>e. event_key e = k) es))"
proof -
  note inv = key_inv_run [of k es]
  have 1: "serial (filter (\<lambda>x. execution_key x = k) (executions (lock_run es)))"
    using inv by (auto simp: key_inv_def Let_def split: option.splits)
  have 2: "started k (executions (lock_run es)) @ queue (locks (lock_run es) k) = calls k es"
    using inv by (simp add: key_inv_def Let_def)
  have 3: "case holder (locks (lock_run es) k) of
         None \<Rightarrow> finished k (executions (lock_run es)) = calls k es
       | Some f \<Rightarrow> started k (executions (lock_run es))
                    = finished k (executions (lock_run es)) @ [f]"
    using inv by (auto simp: key_inv_def Let_def split: option.splits)
  have 4: "finished k (executions (lock_run (es @ map (Settle k) outs))) = calls k es"
    if len: "length outs = length (calls k es)"
  proof -
    let ?es = "es @ map (Settle k) outs"
    have "pending k (lock_run ?es) = pending k (lock_run es) - length outs"
      by (simp add: lock_run_append pending_settles)
    with len pending_le_calls [of k es] have "pending k (lock_run ?es) = 0" by simp
    then have idle: "holder (locks (lock_run ?es) k) = None"
      by (simp add: pending_def split: option.splits)
    have "calls k ?es = calls k es" by (simp add: calls_append calls_settles)
    with key_inv_run [of k ?es] idle show ?thesis
      by (auto simp: key_inv_def Let_def)
  qed
  show ?thesis using 1 2 3 4 forget_run key_view_filter by blast
qed

text \<open>Four calls on \<open>count\<close>, the second of which fails: four executions, one after
  the other, in the order of the calls.\<close>

theorem lock_serializes_witness:
  "length [Resolved, Rejected, Resolved, Resolved] = length (calls ''count'' counts)
   \<and> executions (lock_run (counts @ map (Settle ''count'') [Resolved, Rejected, Resolved, Resolved]))
     = [Started ''count'' 0, Finished ''count'' 0 Resolved,
        Started ''count'' 1, Finished ''count'' 1 Rejected,
        Started ''count'' 2, Finished ''count'' 2 Resolved,
        Started ''count'' 3, Finished ''count'' 3 Resolved]
   \<and> finished ''count''
        (executions (lock_run (counts @ map (Settle ''count'') [Resolved, Rejected, Resolved, Resolved])))
     = [0, 1, 2, 3]"
proof -
  have h: "length [Resolved, Rejected, Resolved, Resolved] = length (calls ''count'' counts)"
    by (simp add: counts_def)
  have c: "calls ''count'' counts = [0, 1, 2, 3]" by (simp add: counts_def)
  have e: "executions (lock_run (counts @ map (Settle ''count'') [Resolved, Rejected, Resolved, Resolved]))
     = [Started ''count'' 0, Finished ''count'' 0 Resolved,
        Started ''count'' 1, Finished ''count'' 1 Rejected,
        Started ''count'' 2, Finished ''count'' 2 Resolved,
        Started ''count'' 3, Finished ''count'' 3 Resolved]"
    by (simp add: counts_def lock_run_def InMemStore_def acquire_def release_def Let_def)
  from lock_serializes [of "''count''" counts "[Resolved, Rejected, Resolved, Resolved]"] h c e
  show ?thesis by simp
qed

end
